theory Spec2Isabelle
  imports Main "HOL-Library.Word"
begin

unbundle bit_operations_syntax

section \<open>The matrix encoder of PatientBelongingsInventory-preview.jsx\<close>

text \<open>
  The embedded code is the closure \<^verbatim>\<open>QRCode\<close> at the head of
  \<^verbatim>\<open>src/PatientBelongingsInventory-preview.jsx\<close> (lines 4 to 137): \<^verbatim>\<open>generateQR\<close>,
  \<^verbatim>\<open>getVersion\<close>, \<^verbatim>\<open>createMatrix\<close>, \<^verbatim>\<open>applyMask\<close>, \<^verbatim>\<open>addFinderPattern\<close>,
  \<^verbatim>\<open>addAlignmentPattern\<close>, \<^verbatim>\<open>getAlignmentPos\<close>, \<^verbatim>\<open>fillData\<close> and \<^verbatim>\<open>getCapacity\<close>.
  \<^verbatim>\<open>encodeData\<close> is the platform's UTF-8 encoder; the model starts from its result,
  the list of payload bytes.

  JavaScript numbers that hold indices, sizes and versions are \<open>int\<close>; payload bytes
  are \<open>8 word\<close>; a bit of the stream is a \<open>nat\<close> (0 or 1), as the source pushes it.
\<close>

subsection \<open>Data\<close>

datatype ecl = L | M | Q | H

text \<open>\<^verbatim>\<open>const EC_LEVELS = { L: 1, M: 0, Q: 3, H: 2 }\<close>\<close>

fun EC_LEVELS :: "ecl \<Rightarrow> int" where
  "EC_LEVELS L = 1"
| "EC_LEVELS M = 0"
| "EC_LEVELS Q = 3"
| "EC_LEVELS H = 2"

text \<open>
  A module is \<open>None\<close> while it is \<^verbatim>\<open>null\<close> (unset), \<open>Some True\<close> when dark and
  \<open>Some False\<close> when light. The matrix is an array of rows.
\<close>

type_synonym matrix = "bool option list list"

text \<open>
  What can go wrong when a module is stored. \<open>TypeError\<close>: the row \<^verbatim>\<open>matrix[r]\<close> is
  \<^verbatim>\<open>undefined\<close>, and JavaScript throws on the assignment. \<open>OutOfGrid\<close>: the row exists
  and the column index lies outside it; JavaScript would grow the row (or hang a stray
  property on it) and go on, leaving a value that is no N by N grid, so the model stops
  with this value instead. \<open>Overwrite\<close> is raised only by the monitored store
  \<open>assign_once\<close> below, never by the code.
\<close>

datatype failure = TypeError | OutOfGrid | Overwrite

type_synonym 'a result = "failure + 'a"

type_synonym store = "matrix \<Rightarrow> int \<Rightarrow> int \<Rightarrow> bool \<Rightarrow> matrix result"

text \<open>
  \<^verbatim>\<open>matrix[r]?.[c]\<close>: \<open>None\<close> is \<^verbatim>\<open>undefined\<close> (no such row or no such column),
  \<open>Some None\<close> is \<^verbatim>\<open>null\<close>.
\<close>

definition look :: "matrix \<Rightarrow> int \<Rightarrow> int \<Rightarrow> bool option option" where
  "look m r c =
     (if 0 \<le> r \<and> r < int (length m) \<and> 0 \<le> c \<and> c < int (length (m ! nat r))
      then Some (m ! nat r ! nat c) else None)"

text \<open>\<^verbatim>\<open>matrix[r]?.[c] === null\<close>\<close>

definition is_null :: "matrix \<Rightarrow> int \<Rightarrow> int \<Rightarrow> bool" where
  "is_null m r c = (look m r c = Some None)"

text \<open>\<^verbatim>\<open>matrix[r][c] = v\<close>\<close>

definition assign :: store where
  "assign m r c v =
     (if r < 0 \<or> int (length m) \<le> r then Inl TypeError
      else if c < 0 \<or> int (length (m ! nat r)) \<le> c then Inl OutOfGrid
      else Inr (m[nat r := (m ! nat r)[nat c := Some v]]))"

text \<open>
  The same store under a monitor: it refuses to store into a module that is already set.
  An encoder run with \<open>assign_once\<close> in place of \<open>assign\<close> ends in \<open>Overwrite\<close> at the
  first assignment to a set module that goes through it.
\<close>

definition assign_once :: store where
  "assign_once m r c v =
     (case look m r c of
        Some (Some b) \<Rightarrow> Inl Overwrite
      | _ \<Rightarrow> assign m r c v)"

text \<open>A \<^verbatim>\<open>for\<close> loop over a fixed sequence of values, stopping at the first failure.\<close>

fun for_each :: "'a list \<Rightarrow> ('a \<Rightarrow> 's \<Rightarrow> 's result) \<Rightarrow> 's \<Rightarrow> 's result" where
  "for_each [] body s = Inr s"
| "for_each (x # xs) body s =
     (case body x s of Inl e \<Rightarrow> Inl e | Inr s' \<Rightarrow> for_each xs body s')"

subsection \<open>Version selection\<close>

definition caps :: "int list" where
  "caps = [17,32,53,78,106,134,154,192,230,271,321,367,425,458,520,586,644,718,792,858]"

text \<open>\<^verbatim>\<open>for (let v = 1; v <= 20; v++) { if (caps[v-1] >= len) return v; } return 20;\<close>\<close>

function versionScan :: "int \<Rightarrow> int \<Rightarrow> int" where
  "versionScan len v =
     (if v \<le> 20 then (if caps ! nat (v - 1) \<ge> len then v else versionScan len (v + 1))
      else 20)"
  by pat_completeness auto
termination
  by (relation "measure (\<lambda>(len, v). nat (21 - v))") auto

definition getVersion :: "int \<Rightarrow> ecl \<Rightarrow> int" where
  "getVersion len e = versionScan len 1"

subsection \<open>Matrix allocation and function patterns\<close>

definition createMatrix :: "int \<Rightarrow> matrix" where
  "createMatrix sz = replicate (nat sz) (replicate (nat sz) None)"

definition finderDark :: "int \<Rightarrow> int \<Rightarrow> bool" where
  "finderDark r c =
     ((r \<ge> 0 \<and> r \<le> 6 \<and> (c = 0 \<or> c = 6)) \<or>
      (c \<ge> 0 \<and> c \<le> 6 \<and> (r = 0 \<or> r = 6)) \<or>
      (r \<ge> 2 \<and> r \<le> 4 \<and> c \<ge> 2 \<and> c \<le> 4))"

definition addFinderPattern :: "store \<Rightarrow> matrix \<Rightarrow> int \<Rightarrow> int \<Rightarrow> matrix result" where
  "addFinderPattern w matrix row col =
     for_each [-1..7] (\<lambda>r.
       for_each [-1..7] (\<lambda>c m.
         let rr = row + r; cc = col + c in
         if rr < 0 \<or> cc < 0 \<or> rr \<ge> int (length m) \<or> cc \<ge> int (length m) then Inr m
         else w m rr cc (finderDark r c))) matrix"

definition alignDark :: "int \<Rightarrow> int \<Rightarrow> bool" where
  "alignDark r c = (\<bar>r\<bar> = 2 \<or> \<bar>c\<bar> = 2 \<or> (r = 0 \<and> c = 0))"

definition addAlignmentPattern :: "store \<Rightarrow> matrix \<Rightarrow> int \<Rightarrow> int \<Rightarrow> matrix result" where
  "addAlignmentPattern w matrix row col =
     for_each [-2..2] (\<lambda>r.
       for_each [-2..2] (\<lambda>c m. w m (row + r) (col + c) (alignDark r c))) matrix"

text \<open>
  \<^verbatim>\<open>for (let p = dist + 6; pos.length <= intervals; p -= step) pos.unshift(p);\<close>
\<close>

function alignScan :: "int \<Rightarrow> int \<Rightarrow> int \<Rightarrow> int list \<Rightarrow> int list" where
  "alignScan intervals step p pos =
     (if int (length pos) \<le> intervals then alignScan intervals step (p - step) (p # pos)
      else pos)"
  by pat_completeness auto
termination
  by (relation "measure (\<lambda>(intervals, step, p, pos). nat (intervals + 1 - int (length pos)))")
    auto

text \<open>
  \<^verbatim>\<open>Math.ceil(dist / intervals / 2) * 2\<close>: \<open>dist\<close> and \<open>intervals\<close> are small positive
  integers, so the quotient of the doubles is exact whenever it is an integer and at least
  1/6 away from one otherwise; the ceiling is the integer ceiling of
  \<open>dist / (2 * intervals)\<close>.
\<close>

definition getAlignmentPos :: "int \<Rightarrow> int list" where
  "getAlignmentPos version =
     (if version = 1 then []
      else
        let intervals = version div 7 + 1;
            dist = 4 * version + 4;
            step = (- ((- dist) div (2 * intervals))) * 2
        in alignScan intervals step (dist + 6) [6])"

subsection \<open>Bit stream\<close>

text \<open>\<^verbatim>\<open>(x >> i) & 1\<close>\<close>

definition bitAt :: "nat \<Rightarrow> nat \<Rightarrow> nat" where
  "bitAt x i = (drop_bit i x) AND 1"

definition getCapacity :: "int \<Rightarrow> int" where
  "getCapacity version =
     (let total = (version * 4 + 17) ^ 2;
          func = 192 + (if version > 1 then (version div 7 + 1) ^ 2 * 25 - 10 else 0)
                     + (if version > 6 then 67 else 0)
      in (total - func) div 8 - (if version < 2 then 13 else if version < 7 then 22 else 36))"

lemma terminator_measure:
  assumes "n mod 8 \<noteq> 0"
  shows "(8 - Suc n mod 8) mod 8 < (8 - n mod 8) mod (8::nat)"
proof (cases "Suc (n mod 8) = 8")
  case True
  then have "Suc n mod 8 = 0" by (simp add: mod_Suc)
  moreover from True have "n mod 8 = 7" by simp
  ultimately show ?thesis by simp
next
  case False
  then have step: "Suc n mod 8 = Suc (n mod 8)" by (simp add: mod_Suc)
  have "n mod 8 < 8" by simp
  with False have "Suc (n mod 8) < 8" by linarith
  with assms step show ?thesis by simp
qed

text \<open>\<^verbatim>\<open>while (bits.length % 8 !== 0) bits.push(0);\<close>\<close>

function terminator :: "nat list \<Rightarrow> nat list" where
  "terminator bits = (if length bits mod 8 \<noteq> 0 then terminator (bits @ [0]) else bits)"
  by pat_completeness auto
termination
proof (relation "measure (\<lambda>bits. (8 - length bits mod 8) mod 8)")
  show "wf (measure (\<lambda>bits. (8 - length bits mod 8) mod 8))" by simp
next
  fix bits :: "nat list"
  assume "length bits mod 8 \<noteq> 0"
  then have "(8 - Suc (length bits) mod 8) mod 8 < (8 - length bits mod 8) mod 8"
    by (rule terminator_measure)
  then show "(bits @ [0], bits) \<in> measure (\<lambda>bits. (8 - length bits mod 8) mod 8)"
    by simp
qed

text \<open>
  \<^verbatim>\<open>for (let i = 7; i >= 0 && bits.length < capacity; i--) bits.push((pad >> i) & 1);\<close>
  The counter of \<open>padByte\<close> is \<open>i + 1\<close>.
\<close>

fun padByte :: "nat list \<Rightarrow> nat \<Rightarrow> int \<Rightarrow> nat \<Rightarrow> nat list" where
  "padByte bits pad capacity 0 = bits"
| "padByte bits pad capacity (Suc i) =
     (if int (length bits) < capacity then padByte (bits @ [bitAt pad i]) pad capacity i
      else bits)"

lemma length_padByte_le: "length bits \<le> length (padByte bits pad capacity k)"
proof (induction k arbitrary: bits)
  case 0
  show ?case by simp
next
  case (Suc k)
  have "length bits \<le> length (bits @ [bitAt pad k])" by simp
  also have "\<dots> \<le> length (padByte (bits @ [bitAt pad k]) pad capacity k)" by (rule Suc.IH)
  finally show ?case by simp
qed

lemma length_padByte_less:
  assumes "int (length bits) < capacity" and "0 < k"
  shows "length bits < length (padByte bits pad capacity k)"
proof (cases k)
  case 0
  with assms show ?thesis by simp
next
  case (Suc j)
  with assms length_padByte_le [of "bits @ [bitAt pad j]" pad capacity j]
  show ?thesis by simp
qed

function padding :: "nat list \<Rightarrow> nat \<Rightarrow> int \<Rightarrow> nat list" where
  "padding bits pad capacity =
     (if int (length bits) < capacity
      then padding (padByte bits pad capacity 8) (if pad = 0xEC then 0x11 else 0xEC) capacity
      else bits)"
  by pat_completeness auto
termination
proof (relation "measure (\<lambda>(bits, pad, capacity). nat (capacity - int (length bits)))")
  show "wf (measure (\<lambda>(bits, pad, capacity). nat (capacity - int (length bits))))" by simp
next
  fix bits :: "nat list" and pad :: nat and capacity :: int
  assume a: "int (length bits) < capacity"
  have "length bits < length (padByte bits pad capacity 8)"
    using a by (rule length_padByte_less) simp
  with a show "((padByte bits pad capacity 8, if pad = 0xEC then 0x11 else 0xEC, capacity),
                bits, pad, capacity)
          \<in> measure (\<lambda>(bits, pad, capacity). nat (capacity - int (length bits)))"
    by simp
qed

text \<open>
  Lines 93 to 111 of \<^verbatim>\<open>fillData\<close>: mode indicator, character count, data, terminator,
  padding.
\<close>

definition buildBits :: "8 word list \<Rightarrow> int \<Rightarrow> nat list" where
  "buildBits data version =
     (let bits = [0, 1, 0, 0];
          countBits = (if version < 10 then 8 else 16);
          bits = bits @ map (bitAt (length data)) (rev [0..<countBits]);
          bits = bits @ concat (map (\<lambda>byte. map (bitAt (unat byte)) (rev [0..<8])) data);
          bits = terminator bits;
          capacity = getCapacity version * 8
      in padding bits 0xEC capacity)"

subsection \<open>Data placement\<close>

text \<open>
  \<^verbatim>\<open>!matrix[row][cc]\<close> is the negation of \<open>truthy\<close>: \<^verbatim>\<open>undefined\<close> and \<^verbatim>\<open>null\<close> are
  falsy, a module that is set is its own truth value.
\<close>

definition truthy :: "bool option option \<Rightarrow> bool" where
  "truthy x = (case x of Some (Some b) \<Rightarrow> b | _ \<Rightarrow> False)"

text \<open>
  The body of the innermost loop of \<^verbatim>\<open>fillData\<close> at the module \<open>(row, cc)\<close>, with its two
  stores: line 120 stores the bit through \<open>w\<close>, and when \<open>row + cc\<close> is even line 122 reads
  the module back and stores its negation through \<open>wm\<close>. The test
  \<^verbatim>\<open>matrix[row][cc] === null\<close> is \<open>is_null\<close>: the row loop keeps \<open>row\<close> inside
  \<^verbatim>\<open>matrix.length\<close>, so \<^verbatim>\<open>matrix[row]\<close> is a row, and a column outside it reads
  \<^verbatim>\<open>undefined\<close>, which is not \<^verbatim>\<open>null\<close>.
\<close>

definition visit ::
  "store \<Rightarrow> store \<Rightarrow> nat list \<Rightarrow> int \<Rightarrow> int \<Rightarrow> matrix \<times> nat \<Rightarrow> (matrix \<times> nat) result"
  where
  "visit w wm bits row cc s =
     (case s of (m, i) \<Rightarrow>
        if is_null m row cc then
          (let b = (if i < length bits then bits ! i = 1 else False);
               i' = (if i < length bits then i + 1 else i)
           in case w m row cc b of
                Inl e \<Rightarrow> Inl e
              | Inr m' \<Rightarrow>
                  if (row + cc) mod 2 = 0
                  then (case wm m' row cc (\<not> truthy (look m' row cc)) of
                          Inl e \<Rightarrow> Inl e
                        | Inr m'' \<Rightarrow> Inr (m'', i'))
                  else Inr (m', i'))
        else Inr (m, i))"

text \<open>
  \<^verbatim>\<open>for (let row = ...; row >= 0 && row < size; row += dir)\<close> with the loop over
  \<open>c = 0, 1\<close> inside. Nothing in the loop makes \<open>row\<close> leave the grid when \<open>dir\<close> is 0,
  so the loop is a partial function: \<open>None\<close> is a run that does not return.
\<close>

partial_function (option) fillRows ::
  "store \<Rightarrow> store \<Rightarrow> nat list \<Rightarrow> int \<Rightarrow> int \<Rightarrow> int \<Rightarrow> int \<Rightarrow> matrix \<times> nat
   \<Rightarrow> (matrix \<times> nat) result option"
  where
  "fillRows w wm bits sz dir col row s =
     (if row \<ge> 0 \<and> row < sz then
        (case for_each [0..1] (\<lambda>c. visit w wm bits row (col - c)) s of
           Inl e \<Rightarrow> Some (Inl e)
         | Inr s' \<Rightarrow> fillRows w wm bits sz dir col (row + dir) s')
      else Some (Inr s))"

declare fillRows.simps [code]

text \<open>
  \<^verbatim>\<open>for (let i = 0; col > 0; col -= 2) { if (col === 6) col--; ...; dir = -dir; }\<close>
\<close>

function fillCols ::
  "store \<Rightarrow> store \<Rightarrow> nat list \<Rightarrow> int \<Rightarrow> int \<Rightarrow> int \<Rightarrow> matrix \<times> nat
   \<Rightarrow> (matrix \<times> nat) result option"
  where
  "fillCols w wm bits sz dir col s =
     (if col > 0 then
        (let col' = (if col = 6 then col - 1 else col) in
         case fillRows w wm bits sz dir col' (if dir < 0 then sz - 1 else 0) s of
           None \<Rightarrow> None
         | Some (Inl e) \<Rightarrow> Some (Inl e)
         | Some (Inr s') \<Rightarrow> fillCols w wm bits sz (- dir) (col' - 2) s')
      else Some (Inr s))"
  by pat_completeness auto
termination
  by (relation "measure (\<lambda>(w, wm, bits, sz, dir, col, s). nat col)") auto

definition fillData ::
  "store \<Rightarrow> store \<Rightarrow> matrix \<Rightarrow> 8 word list \<Rightarrow> int \<Rightarrow> matrix result option" where
  "fillData w wm matrix data version =
     (let sz = int (length matrix);
          bits = buildBits data version
      in case fillCols w wm bits sz (- 1) (sz - 1) (matrix, 0) of
           None \<Rightarrow> None
         | Some (Inl e) \<Rightarrow> Some (Inl e)
         | Some (Inr (m, i)) \<Rightarrow> Some (Inr m))"

subsection \<open>The encoder\<close>

text \<open>\<^verbatim>\<open>matrix[6][i] = matrix[i][6] = i % 2 === 0\<close>\<close>

definition addTiming :: "store \<Rightarrow> int \<Rightarrow> matrix \<Rightarrow> matrix result" where
  "addTiming w i m =
     (case w m i 6 (i mod 2 = 0) of Inl e \<Rightarrow> Inl e | Inr m' \<Rightarrow> w m' 6 i (i mod 2 = 0))"

definition addAlignment :: "store \<Rightarrow> int list \<Rightarrow> matrix \<Rightarrow> matrix result" where
  "addAlignment w pos matrix =
     for_each pos (\<lambda>row.
       for_each pos (\<lambda>col m.
         if is_null m row col then addAlignmentPattern w m row col else Inr m)) matrix"

definition applyMask ::
  "store \<Rightarrow> store \<Rightarrow> matrix \<Rightarrow> 8 word list \<Rightarrow> int \<Rightarrow> int \<Rightarrow> matrix result option"
  where
  "applyMask w wm matrix data version e =
     (let sz = int (length matrix) in
      case addFinderPattern w matrix 0 0 of Inl x \<Rightarrow> Some (Inl x) | Inr m1 \<Rightarrow>
     (case addFinderPattern w m1 (sz - 7) 0 of Inl x \<Rightarrow> Some (Inl x) | Inr m2 \<Rightarrow>
     (case addFinderPattern w m2 0 (sz - 7) of Inl x \<Rightarrow> Some (Inl x) | Inr m3 \<Rightarrow>
     (case for_each [8..sz - 9] (addTiming w) m3 of Inl x \<Rightarrow> Some (Inl x) | Inr m4 \<Rightarrow>
     (case (if version > 1 then addAlignment w (getAlignmentPos version) m4 else Inr m4) of
        Inl x \<Rightarrow> Some (Inl x)
      | Inr m5 \<Rightarrow> fillData w wm m5 data version)))))"

text \<open>
  \<open>generateQR_under w wm\<close> is \<^verbatim>\<open>generateQR\<close> with the store \<open>wm\<close> for the mask flip of
  line 122 and the store \<open>w\<close> for every other assignment to a module; \<open>generateQR\<close> is the
  code as it runs, with the plain assignment for both.
\<close>

definition generateQR_under ::
  "store \<Rightarrow> store \<Rightarrow> 8 word list \<Rightarrow> ecl \<Rightarrow> matrix result option" where
  "generateQR_under w wm data e =
     (let version = getVersion (int (length data)) e;
          sz = version * 4 + 17;
          matrix = createMatrix sz
      in applyMask w wm matrix data version (EC_LEVELS e))"

definition generateQR :: "8 word list \<Rightarrow> ecl \<Rightarrow> matrix result option" where
  "generateQR data e = generateQR_under assign assign data e"

subsection \<open>Notions for the proofs\<close>

text \<open>
  The length of the stream before padding: header, count field and data, rounded up to
  whole bytes.
\<close>

definition unpadded :: "int \<Rightarrow> int \<Rightarrow> int" where
  "unpadded len version = (if version < 10 then 8 * len + 16 else 8 * len + 24)"

text \<open>An \<open>n\<close> by \<open>n\<close> grid: \<open>n\<close> rows of \<open>n\<close> modules each.\<close>

definition square :: "int \<Rightarrow> matrix \<Rightarrow> bool" where
  "square n m = (int (length m) = n \<and> list_all (\<lambda>row. int (length row) = n) m)"

text \<open>The modules that are set (dark or light).\<close>

definition setcells :: "matrix \<Rightarrow> (int \<times> int) set" where
  "setcells m = {(r, c). \<exists>b. look m r c = Some (Some b)}"

text \<open>
  \<open>stamped n m R f t\<close>: the grid \<open>t\<close> is \<open>m\<close> with the modules of \<open>R\<close> (those inside the
  grid) set to the values \<open>f\<close> gives them, and every other module as it was.
\<close>

definition stamped ::
  "int \<Rightarrow> matrix \<Rightarrow> (int \<times> int) set \<Rightarrow> (int \<Rightarrow> int \<Rightarrow> bool) \<Rightarrow> matrix \<Rightarrow> bool" where
  "stamped n m R f t =
     (square n t \<and>
      (\<forall>r c. look t r c =
         (if (r, c) \<in> R \<and> 0 \<le> r \<and> r < n \<and> 0 \<le> c \<and> c < n then Some (Some (f r c))
          else look m r c)))"

text \<open>\<open>keeps n m t\<close>: every module set in \<open>m\<close> has the same value in the grid \<open>t\<close>.\<close>

definition keeps :: "int \<Rightarrow> matrix \<Rightarrow> matrix \<Rightarrow> bool" where
  "keeps n m t = (square n t \<and> (\<forall>r c b. look m r c = Some (Some b) \<longrightarrow> look t r c = Some (Some b)))"

text \<open>The modules at the offsets \<open>a\<close> to \<open>b\<close> (both ways) from \<open>(row, col)\<close>.\<close>

definition block :: "int \<Rightarrow> int \<Rightarrow> int \<Rightarrow> int \<Rightarrow> (int \<times> int) set" where
  "block row col a b = {(r, c). row + a \<le> r \<and> r \<le> row + b \<and> col + a \<le> c \<and> c \<le> col + b}"

text \<open>The modules of the two timing lines.\<close>

definition timing :: "int \<Rightarrow> (int \<times> int) set" where
  "timing n = (\<Union>i \<in> set [8..n - 9]. {(i, 6), (6, i)})"

text \<open>
  The grid after the finder and timing patterns: set modules lie in the first eight rows
  or columns, row 6 and column 6 are set throughout, and the timing modules alternate.
\<close>

definition pattern_grid :: "int \<Rightarrow> matrix \<Rightarrow> bool" where
  "pattern_grid n m =
     (square n m
      \<and> (\<forall>r c. (r, c) \<in> setcells m \<longrightarrow> r \<le> 7 \<or> c \<le> 7)
      \<and> (\<forall>i. 0 \<le> i \<and> i < n \<longrightarrow> (6, i) \<in> setcells m \<and> (i, 6) \<in> setcells m)
      \<and> (\<forall>i. 8 \<le> i \<and> i \<le> n - 9 \<longrightarrow>
            look m 6 i = Some (Some (i mod 2 = 0)) \<and> look m i 6 = Some (Some (i mod 2 = 0))))"

text \<open>
  What the stamping of the alignment patterns needs of the position list: every position
  is 6 or lies at least 10 modules from the top and left and 7 from the bottom and right
  edge, and two different positions are at least 5 apart.
\<close>

definition pos_ok :: "int \<Rightarrow> int list \<Rightarrow> bool" where
  "pos_ok n pos =
     (list_all (\<lambda>p. p = 6 \<or> (10 \<le> p \<and> p + 7 \<le> n)) pos
      \<and> list_all (\<lambda>p. list_all (\<lambda>q. p = q \<or> 5 \<le> \<bar>p - q\<bar>) pos) pos)"

text \<open>
  The grid while the alignment patterns are stamped: the modules of the pattern grid are
  kept, and a set module outside the first eight rows and columns lies in the 5 by 5
  block of a centre that is set.
\<close>

definition aligned :: "int \<Rightarrow> int set \<Rightarrow> matrix \<Rightarrow> matrix \<Rightarrow> bool" where
  "aligned n ps m4 s =
     (keeps n m4 s
      \<and> (\<forall>r c. (r, c) \<in> setcells s \<longrightarrow>
            r \<le> 7 \<or> c \<le> 7 \<or>
            (\<exists>p q. p \<in> ps \<and> q \<in> ps \<and> \<bar>r - p\<bar> \<le> 2 \<and> \<bar>c - q\<bar> \<le> 2 \<and> (p, q) \<in> setcells s)))"

text \<open>The rows a pass visits, in its order.\<close>

definition pass_rows :: "int \<Rightarrow> int \<Rightarrow> int list" where
  "pass_rows sz dir = (if dir < 0 then rev [0..sz - 1] else [0..sz - 1])"

text \<open>Every module to the right of column \<open>col\<close>, column 6 apart, is set.\<close>

definition filled_from :: "int \<Rightarrow> int \<Rightarrow> matrix \<Rightarrow> bool" where
  "filled_from n col m =
     (\<forall>r c. 0 \<le> r \<and> r < n \<and> col < c \<and> c < n \<and> c \<noteq> 6 \<longrightarrow> (r, c) \<in> setcells m)"

section \<open>Verification\<close>

text \<open>
  The recursive equations of the loops are applied by hand, at the arguments of each
  proof.
\<close>

declare versionScan.simps [simp del]
declare terminator.simps [simp del]
declare padding.simps [simp del]
declare alignScan.simps [simp del]
declare fillCols.simps [simp del]

subsection \<open>Version selection\<close>

lemma versionScan_bounds: "v \<le> 20 \<Longrightarrow> v \<le> versionScan len v \<and> versionScan len v \<le> 20"
proof (induction len v rule: versionScan.induct)
  case (1 len v)
  show ?case
  proof (cases "caps ! nat (v - 1) \<ge> len")
    case True
    with "1.prems" show ?thesis by (simp add: versionScan.simps [of len v])
  next
    case False
    show ?thesis
    proof (cases "v + 1 \<le> 20")
      case True
      with False "1.prems" "1.IH" show ?thesis by (simp add: versionScan.simps [of len v])
    next
      case False
      with \<open>\<not> caps ! nat (v - 1) \<ge> len\<close> "1.prems" show ?thesis
        by (simp add: versionScan.simps [of len v] versionScan.simps [of len "v + 1"])
    qed
  qed
qed

lemma versionScan_past: "20 < v \<Longrightarrow> versionScan len v = 20"
  by (simp add: versionScan.simps [of len v])

lemma versionScan_least:
  "v \<le> u \<Longrightarrow> u < versionScan len v \<Longrightarrow> caps ! nat (u - 1) < len"
proof (induction len v rule: versionScan.induct)
  case (1 len v)
  show ?case
  proof (cases "v \<le> 20")
    case False
    with "1.prems" show ?thesis by (simp add: versionScan_past)
  next
    case le: True
    show ?thesis
    proof (cases "caps ! nat (v - 1) \<ge> len")
      case True
      with le "1.prems" show ?thesis by (simp add: versionScan.simps [of len v])
    next
      case False
      show ?thesis
      proof (cases "u = v")
        case True
        with False show ?thesis by simp
      next
        case ne: False
        with "1.prems" have "v + 1 \<le> u" by simp
        moreover from le False "1.prems" have "u < versionScan len (v + 1)"
          by (simp add: versionScan.simps [of len v])
        ultimately show ?thesis using "1.IH" le False by simp
      qed
    qed
  qed
qed

lemma versionScan_covers:
  "v \<le> 20 \<Longrightarrow> len \<le> caps ! 19 \<Longrightarrow> len \<le> caps ! nat (versionScan len v - 1)"
proof (induction len v rule: versionScan.induct)
  case (1 len v)
  show ?case
  proof (cases "caps ! nat (v - 1) \<ge> len")
    case True
    with "1.prems" show ?thesis by (simp add: versionScan.simps [of len v])
  next
    case False
    have "v \<noteq> 20"
    proof
      assume "v = 20"
      then have "caps ! nat (v - 1) = caps ! 19" by simp
      with False "1.prems" show False by linarith
    qed
    with "1.prems" have "v + 1 \<le> 20" by simp
    with False "1.prems" "1.IH" show ?thesis by (simp add: versionScan.simps [of len v])
  qed
qed

lemma versionScan_mono: "a \<le> b \<Longrightarrow> versionScan a v \<le> versionScan b v"
proof (induction a v rule: versionScan.induct)
  case (1 a v)
  show ?case
  proof (cases "v \<le> 20")
    case False
    then show ?thesis by (simp add: versionScan_past)
  next
    case le: True
    show ?thesis
    proof (cases "caps ! nat (v - 1) \<ge> a")
      case True
      with le have "versionScan a v = v" by (simp add: versionScan.simps [of a v])
      with versionScan_bounds [OF le, of b] show ?thesis by simp
    next
      case False
      with "1.prems" have "\<not> caps ! nat (v - 1) \<ge> b" by simp
      with False le "1.IH" "1.prems" show ?thesis
        by (simp add: versionScan.simps [of a v] versionScan.simps [of b v])
    qed
  qed
qed

lemma getVersion_range: "1 \<le> getVersion len e \<and> getVersion len e \<le> 20"
  using versionScan_bounds [of 1 len] by (simp add: getVersion_def)

lemma getVersion_200: "getVersion 200 e = 9"
  unfolding getVersion_def by code_simp

lemma getVersion_1: "getVersion 1 e = 1"
  unfolding getVersion_def by code_simp


subsection \<open>Bit stream\<close>

lemma length_terminator: "length (terminator bits) = (length bits + 7) div 8 * 8"
proof (induction bits rule: terminator.induct)
  case (1 bits)
  show ?case
  proof (cases "length bits mod 8 = 0")
    case True
    then have "(length bits + 7) div 8 * 8 = length bits" by presburger
    with True show ?thesis by (simp add: terminator.simps [of bits])
  next
    case False
    then have "(length bits + 1 + 7) div 8 * 8 = (length bits + 7) div 8 * 8" by presburger
    with False "1.IH" show ?thesis by (simp add: terminator.simps [of bits])
  qed
qed

lemma length_padByte:
  "int (length (padByte bits pad capacity k)) =
     max (int (length bits)) (min capacity (int (length bits) + int k))"
proof (induction k arbitrary: bits)
  case 0
  show ?case by simp
next
  case (Suc k)
  show ?case
  proof (cases "int (length bits) < capacity")
    case True
    have "int (length (padByte bits pad capacity (Suc k))) =
          int (length (padByte (bits @ [bitAt pad k]) pad capacity k))"
      using True by simp
    also have "\<dots> = max (int (length (bits @ [bitAt pad k])))
                      (min capacity (int (length (bits @ [bitAt pad k])) + int k))"
      by (rule Suc.IH)
    also have "\<dots> = max (int (length bits)) (min capacity (int (length bits) + int (Suc k)))"
      using True by simp
    finally show ?thesis .
  next
    case False
    then show ?thesis by simp
  qed
qed

lemma length_padding:
  "int (length (padding bits pad capacity)) = max (int (length bits)) capacity"
proof (induction bits pad capacity rule: padding.induct)
  case (1 bits pad capacity)
  show ?case
  proof (cases "int (length bits) < capacity")
    case True
    have "int (length (padByte bits pad capacity 8)) =
          max (int (length bits)) (min capacity (int (length bits) + int 8))"
      by (rule length_padByte)
    with True have "max (int (length (padByte bits pad capacity 8))) capacity = capacity"
      by simp
    with True "1.IH" show ?thesis by (simp add: padding.simps [of bits pad capacity])
  next
    case False
    then show ?thesis by (simp add: padding.simps [of bits pad capacity])
  qed
qed

lemma length_data_bits:
  "length (concat (map (\<lambda>byte. map (f byte) (rev [0..<8])) data)) = 8 * length data"
  by (induction data) simp_all

lemma length_buildBits:
  "int (length (buildBits data version)) =
     max (unpadded (int (length data)) version) (getCapacity version * 8)"
proof -
  define n where "n = length data"
  have d: "length (concat (map (\<lambda>byte. map (bitAt (unat byte)) (rev [0..<8])) data)) = 8 * n"
    unfolding n_def by (rule length_data_bits)
  have t8: "(4 + 8 + 8 * n + 7) div 8 * 8 = 8 * n + 16" by presburger
  have t16: "(4 + 16 + 8 * n + 7) div 8 * 8 = 8 * n + 24" by presburger
  show ?thesis
  proof (cases "version < 10")
    case True
    with d t8 show ?thesis
      by (simp add: buildBits_def Let_def length_padding length_terminator unpadded_def n_def)
  next
    case False
    with d t16 show ?thesis
      by (simp add: buildBits_def Let_def length_padding length_terminator unpadded_def n_def)
  qed
qed

lemma getCapacity_1: "getCapacity 1 = 18"
  by (simp add: getCapacity_def)

subsection \<open>Grids and stores\<close>

lemma nat_distinct: "0 \<le> a \<Longrightarrow> 0 \<le> b \<Longrightarrow> a \<noteq> b \<Longrightarrow> nat a \<noteq> nat b"
  by (simp add: eq_nat_nat_iff)

lemma square_index: "square n m \<Longrightarrow> 0 \<le> r \<Longrightarrow> r < n \<Longrightarrow> nat r < length m"
proof -
  assume "square n m" and r: "0 \<le> r" "r < n"
  then have "int (length m) = n" by (simp add: square_def)
  with r show ?thesis by linarith
qed

lemma square_row: "square n m \<Longrightarrow> 0 \<le> r \<Longrightarrow> r < n \<Longrightarrow> int (length (m ! nat r)) = n"
proof -
  assume sq: "square n m" and r: "0 \<le> r" "r < n"
  from sq r have "nat r < length m" by (rule square_index)
  then have "m ! nat r \<in> set m" by simp
  with sq show ?thesis by (simp add: square_def list_all_iff)
qed

lemma look_square:
  assumes "square n m"
  shows "look m r c = (if 0 \<le> r \<and> r < n \<and> 0 \<le> c \<and> c < n then Some (m ! nat r ! nat c) else None)"
proof (cases "0 \<le> r \<and> r < n")
  case True
  with assms square_row [of n m r] have "int (length (m ! nat r)) = n" by simp
  with True assms show ?thesis by (simp add: look_def square_def)
next
  case False
  with assms show ?thesis by (auto simp add: look_def square_def)
qed

lemma look_in_grid:
  "square n m \<Longrightarrow> look m r c = Some x \<Longrightarrow> 0 \<le> r \<and> r < n \<and> 0 \<le> c \<and> c < n"
  by (simp add: look_square split: if_splits)

lemma square_createMatrix: "0 \<le> n \<Longrightarrow> square n (createMatrix n)"
  by (simp add: square_def createMatrix_def list_all_iff)

lemma look_createMatrix:
  "0 \<le> r \<Longrightarrow> r < n \<Longrightarrow> 0 \<le> c \<Longrightarrow> c < n \<Longrightarrow> look (createMatrix n) r c = Some None"
  by (simp add: look_def createMatrix_def)

lemma setcells_createMatrix: "setcells (createMatrix n) = {}"
proof -
  have "look (createMatrix n) r c \<noteq> Some (Some b)" for r c b
    by (auto simp add: look_def createMatrix_def)
  then show ?thesis by (simp add: setcells_def)
qed

lemma assign_stamped:
  assumes sq: "square n m" and r: "0 \<le> r" "r < n" and c: "0 \<le> c" "c < n"
  shows "\<exists>t. assign m r c v = Inr t \<and> stamped n m {(r, c)} (\<lambda>r' c'. v) t"
proof -
  define t where "t = m[nat r := (m ! nat r)[nat c := Some v]]"
  from sq r have lr: "nat r < length m" by (rule square_index)
  from sq r have lc: "int (length (m ! nat r)) = n" by (rule square_row)
  from sq r c lc have a: "assign m r c v = Inr t"
    by (simp add: assign_def t_def square_def)
  have len: "length t = length m" by (simp add: t_def)
  have "int (length row) = n" if "row \<in> set t" for row
  proof -
    from that have "row \<in> insert ((m ! nat r)[nat c := Some v]) (set m)"
      unfolding t_def using set_update_subset_insert by fastforce
    with sq lc show ?thesis by (auto simp add: square_def list_all_iff)
  qed
  with sq len have sqt: "square n t" by (simp add: square_def list_all_iff)
  have "look t r' c' = (if (r', c') \<in> {(r, c)} \<and> 0 \<le> r' \<and> r' < n \<and> 0 \<le> c' \<and> c' < n
                        then Some (Some v) else look m r' c')" for r' c'
  proof (cases "0 \<le> r' \<and> r' < n \<and> 0 \<le> c' \<and> c' < n")
    case False
    then show ?thesis unfolding look_square [OF sq] look_square [OF sqt] by auto
  next
    case True
    show ?thesis
    proof (cases "r' = r")
      case False
      with True r have "nat r' \<noteq> nat r" by (simp add: nat_distinct)
      then have "t ! nat r' = m ! nat r'" by (simp add: t_def)
      with True False sq sqt show ?thesis by (simp add: look_square)
    next
      case rr: True
      from lr have row: "t ! nat r = (m ! nat r)[nat c := Some v]" by (simp add: t_def)
      show ?thesis
      proof (cases "c' = c")
        case True
        from c lc have "nat c < length (m ! nat r)" by simp
        with row have "t ! nat r ! nat c = Some v" by simp
        with rr True r c sq sqt show ?thesis by (simp add: look_square)
      next
        case False
        with True c have "nat c' \<noteq> nat c" by (simp add: nat_distinct)
        with row have "t ! nat r ! nat c' = m ! nat r ! nat c'" by simp
        with rr False True sq sqt show ?thesis by (simp add: look_square)
      qed
    qed
  qed
  with sqt have "stamped n m {(r, c)} (\<lambda>r' c'. v) t" by (simp add: stamped_def)
  with a show ?thesis by blast
qed

lemma assign_once_null: "look m r c = Some None \<Longrightarrow> assign_once m r c v = assign m r c v"
  by (simp add: assign_once_def)

lemma assign_once_Inr: "assign_once m r c v = Inr t \<Longrightarrow> assign m r c v = Inr t"
  by (simp add: assign_once_def split: option.splits)

lemma assign_once_only_null:
  assumes "assign_once m r c v = Inr t"
  shows "is_null m r c \<and> assign m r c v = Inr t"
proof (cases "look m r c")
  case None
  then have "\<not> (0 \<le> r \<and> r < int (length m) \<and> 0 \<le> c \<and> c < int (length (m ! nat r)))"
    by (simp add: look_def split: if_splits)
  then have "\<exists>x. assign m r c v = Inl x" by (auto simp add: assign_def)
  moreover from None assms have "assign m r c v = Inr t" by (simp add: assign_once_def)
  ultimately show ?thesis by auto
next
  case (Some x)
  show ?thesis
  proof (cases x)
    case None
    with Some assms show ?thesis by (simp add: assign_once_def is_null_def)
  next
    case (Some b)
    with \<open>look m r c = Some x\<close> assms show ?thesis by (simp add: assign_once_def)
  qed
qed

lemma stamped_square: "stamped n m R f t \<Longrightarrow> square n t"
  by (simp add: stamped_def)

lemma stamped_look:
  "stamped n m R f t \<Longrightarrow>
   look t r c = (if (r, c) \<in> R \<and> 0 \<le> r \<and> r < n \<and> 0 \<le> c \<and> c < n then Some (Some (f r c))
                 else look m r c)"
  by (simp add: stamped_def)

lemma stamped_other: "stamped n m R f t \<Longrightarrow> (r, c) \<notin> R \<Longrightarrow> look t r c = look m r c"
  by (simp add: stamped_def)

lemma stamped_outside:
  assumes "square n m" and "\<And>r c. (r, c) \<in> R \<Longrightarrow> \<not> (0 \<le> r \<and> r < n \<and> 0 \<le> c \<and> c < n)"
  shows "stamped n m R f m"
  unfolding stamped_def using assms by auto

lemma stamped_trans:
  assumes "stamped n m R f t" and "stamped n t R' f t'"
  shows "stamped n m (R \<union> R') f t'"
  unfolding stamped_def
proof (intro conjI allI)
  from assms(2) show "square n t'" by (rule stamped_square)
next
  fix r c
  show "look t' r c =
        (if (r, c) \<in> R \<union> R' \<and> 0 \<le> r \<and> r < n \<and> 0 \<le> c \<and> c < n then Some (Some (f r c))
         else look m r c)"
    unfolding stamped_look [OF assms(2)] stamped_look [OF assms(1)] by auto
qed

lemma stamped_cong:
  assumes "stamped n m R f t" and "\<And>r c. (r, c) \<in> R \<Longrightarrow> f r c = g r c"
  shows "stamped n m R g t"
  unfolding stamped_def
proof (intro conjI allI)
  from assms(1) show "square n t" by (rule stamped_square)
next
  fix r c
  show "look t r c =
        (if (r, c) \<in> R \<and> 0 \<le> r \<and> r < n \<and> 0 \<le> c \<and> c < n then Some (Some (g r c))
         else look m r c)"
    unfolding stamped_look [OF assms(1)] using assms(2) by auto
qed

lemma setcells_stamped:
  assumes "stamped n m R f t"
  shows "setcells t = setcells m \<union> {(r, c). (r, c) \<in> R \<and> 0 \<le> r \<and> r < n \<and> 0 \<le> c \<and> c < n}"
  unfolding setcells_def stamped_look [OF assms] by auto

lemma keeps_refl: "square n m \<Longrightarrow> keeps n m m"
  by (simp add: keeps_def)

lemma keeps_trans: "keeps n m t \<Longrightarrow> keeps n t u \<Longrightarrow> keeps n m u"
  by (simp add: keeps_def)

lemma keeps_square: "keeps n m t \<Longrightarrow> square n t"
  by (simp add: keeps_def)

lemma keeps_look: "keeps n m t \<Longrightarrow> look m r c = Some (Some b) \<Longrightarrow> look t r c = Some (Some b)"
  by (simp add: keeps_def)

lemma keeps_setcells: "keeps n m t \<Longrightarrow> (r, c) \<in> setcells m \<Longrightarrow> (r, c) \<in> setcells t"
  by (auto simp add: keeps_def setcells_def)

lemma keeps_stamped:
  assumes st: "stamped n m R f t" and free: "R \<inter> setcells m = {}"
  shows "keeps n m t"
  unfolding keeps_def
proof (intro conjI allI impI)
  from st show "square n t" by (rule stamped_square)
next
  fix r c b
  assume a: "look m r c = Some (Some b)"
  then have "(r, c) \<in> setcells m" by (auto simp add: setcells_def)
  with free have "(r, c) \<notin> R" by auto
  with a show "look t r c = Some (Some b)" by (simp add: stamped_look [OF st])
qed

subsection \<open>Rules for loops\<close>

lemma for_each_inv:
  assumes "I s"
    and "\<And>x t. x \<in> set xs \<Longrightarrow> I t \<Longrightarrow> \<exists>t'. body x t = Inr t' \<and> I t'"
  shows "\<exists>t'. for_each xs body s = Inr t' \<and> I t'"
  using assms
proof (induction xs arbitrary: s)
  case Nil
  then show ?case by simp
next
  case (Cons x xs)
  from Cons.prems obtain t where t: "body x s = Inr t" "I t" by fastforce
  have "\<exists>t'. for_each xs body t = Inr t' \<and> I t'"
  proof (rule Cons.IH)
    show "I t" by (rule t(2))
  next
    fix y u
    assume "y \<in> set xs" and "I u"
    then show "\<exists>t'. body y u = Inr t' \<and> I t'" using Cons.prems(2) by simp
  qed
  with t(1) show ?case by simp
qed

lemma for_each_post:
  assumes "I s"
    and "\<And>x t. x \<in> set xs \<Longrightarrow> I t \<Longrightarrow>
           \<exists>t'. body x t = Inr t' \<and> I t' \<and> P x t' \<and> (\<forall>y. P y t \<longrightarrow> P y t')"
  shows "\<exists>t'. for_each xs body s = Inr t' \<and> I t' \<and> (\<forall>x \<in> set xs. P x t') \<and> (\<forall>y. P y s \<longrightarrow> P y t')"
  using assms
proof (induction xs arbitrary: s)
  case Nil
  then show ?case by simp
next
  case (Cons x xs)
  from Cons.prems obtain t where
    t: "body x s = Inr t" "I t" "P x t" "\<forall>y. P y s \<longrightarrow> P y t" by fastforce
  have "\<exists>t'. for_each xs body t = Inr t' \<and> I t' \<and> (\<forall>x \<in> set xs. P x t') \<and> (\<forall>y. P y t \<longrightarrow> P y t')"
  proof (rule Cons.IH)
    show "I t" by (rule t(2))
  next
    fix y u
    assume "y \<in> set xs" and "I u"
    then show "\<exists>t'. body y u = Inr t' \<and> I t' \<and> P y t' \<and> (\<forall>z. P z u \<longrightarrow> P z t')"
      using Cons.prems(2) by simp
  qed
  then obtain t' where
    t': "for_each xs body t = Inr t'" "I t'" "\<forall>x \<in> set xs. P x t'" "\<forall>y. P y t \<longrightarrow> P y t'"
    by blast
  from t(1) t'(1) have "for_each (x # xs) body s = Inr t'" by simp
  moreover from t(3) t'(3,4) have "\<forall>y \<in> set (x # xs). P y t'" by simp
  moreover from t(4) t'(4) have "\<forall>y. P y s \<longrightarrow> P y t'" by blast
  ultimately show ?case using t'(2) by blast
qed

lemma for_each_mono:
  assumes "for_each xs body s = Inr t"
    and "\<And>x u u'. x \<in> set xs \<Longrightarrow> body x u = Inr u' \<Longrightarrow> body' x u = Inr u'"
  shows "for_each xs body' s = Inr t"
  using assms
proof (induction xs arbitrary: s)
  case Nil
  then show ?case by simp
next
  case (Cons x xs)
  from Cons.prems(1) obtain u where u: "body x s = Inr u" "for_each xs body u = Inr t"
    by (cases "body x s") simp_all
  from u(1) have "body' x s = Inr u" using Cons.prems(2) by simp
  moreover have "for_each xs body' u = Inr t"
  proof (rule Cons.IH)
    show "for_each xs body u = Inr t" by (rule u(2))
  next
    fix y v v'
    assume "y \<in> set xs" and "body y v = Inr v'"
    then show "body' y v = Inr v'" using Cons.prems(2) by simp
  qed
  ultimately show ?case by simp
qed

text \<open>
  A loop whose iterations stamp pairwise disjoint sets of modules that are not set
  beforehand stamps their union.
\<close>

lemma for_each_stamped:
  assumes "square n m"
    and "distinct xs"
    and "\<And>x y. x \<in> set xs \<Longrightarrow> y \<in> set xs \<Longrightarrow> x \<noteq> y \<Longrightarrow> W x \<inter> W y = {}"
    and "\<And>x. x \<in> set xs \<Longrightarrow> W x \<inter> setcells m = {}"
    and "\<And>x s. x \<in> set xs \<Longrightarrow> square n s \<Longrightarrow> W x \<inter> setcells s = {} \<Longrightarrow>
           \<exists>t. body x s = Inr t \<and> stamped n s (W x) f t"
  shows "\<exists>t. for_each xs body m = Inr t \<and> stamped n m (\<Union>x \<in> set xs. W x) f t"
  using assms
proof (induction xs arbitrary: m)
  case Nil
  from Nil.prems(1) have "stamped n m {} f m" by (rule stamped_outside) simp
  then show ?case by simp
next
  case (Cons x xs)
  have "\<exists>t. body x m = Inr t \<and> stamped n m (W x) f t"
    using Cons.prems(1,4,5) by simp
  then obtain t where t: "body x m = Inr t" "stamped n m (W x) f t" by blast
  have "\<exists>u. for_each xs body t = Inr u \<and> stamped n t (\<Union>y \<in> set xs. W y) f u"
  proof (rule Cons.IH)
    from t(2) show "square n t" by (rule stamped_square)
  next
    from Cons.prems(2) show "distinct xs" by simp
  next
    fix y z
    assume "y \<in> set xs" "z \<in> set xs" "y \<noteq> z"
    then show "W y \<inter> W z = {}" using Cons.prems(3) by simp
  next
    fix y
    assume y: "y \<in> set xs"
    with Cons.prems(2) have "x \<noteq> y" by auto
    with y have "W x \<inter> W y = {}" using Cons.prems(3) by simp
    moreover from y have "W y \<inter> setcells m = {}" using Cons.prems(4) by simp
    ultimately show "W y \<inter> setcells t = {}"
      unfolding setcells_stamped [OF t(2)] by blast
  next
    fix y s
    assume "y \<in> set xs" "square n s" "W y \<inter> setcells s = {}"
    then show "\<exists>u. body y s = Inr u \<and> stamped n s (W y) f u" using Cons.prems(5) by simp
  qed
  then obtain u where u: "for_each xs body t = Inr u" "stamped n t (\<Union>y \<in> set xs. W y) f u"
    by blast
  from t(2) u(2) have "stamped n m (W x \<union> (\<Union>y \<in> set xs. W y)) f u" by (rule stamped_trans)
  then have "stamped n m (\<Union>y \<in> set (x # xs). W y) f u" by simp
  with t(1) u(1) show ?case by simp
qed

subsection \<open>Function patterns under the monitored store\<close>

lemma assign_once_stamped:
  assumes sq: "square n m" and r: "0 \<le> r" "r < n" and c: "0 \<le> c" "c < n"
    and free: "{(r, c)} \<inter> setcells m = {}"
  shows "\<exists>t. assign_once m r c (f r c) = Inr t \<and> stamped n m {(r, c)} f t"
proof -
  from free have "look m r c \<noteq> Some (Some b)" for b by (auto simp add: setcells_def)
  then have once: "assign_once m r c (f r c) = assign m r c (f r c)"
    by (cases "look m r c") (auto simp add: assign_once_def split: option.splits)
  from sq r c obtain t where
    t: "assign m r c (f r c) = Inr t" "stamped n m {(r, c)} (\<lambda>r' c'. f r c) t"
    using assign_stamped by blast
  from t(2) have "stamped n m {(r, c)} f t" by (rule stamped_cong) simp
  with once t(1) show ?thesis by simp
qed

lemma for_each_block:
  assumes sq: "square n m"
    and free: "block row col a b \<inter> setcells m = {}"
    and cell: "\<And>r c s. a \<le> r \<Longrightarrow> r \<le> b \<Longrightarrow> a \<le> c \<Longrightarrow> c \<le> b \<Longrightarrow> square n s \<Longrightarrow>
                 {(row + r, col + c)} \<inter> setcells s = {} \<Longrightarrow>
                 \<exists>t. body r c s = Inr t \<and> stamped n s {(row + r, col + c)} f t"
  shows "\<exists>t. for_each [a..b] (\<lambda>r. for_each [a..b] (body r)) m = Inr t
             \<and> stamped n m (block row col a b) f t"
proof -
  define line where "line r = (\<Union>c \<in> set [a..b]. {(row + r, col + c)})" for r
  have inner: "\<exists>t. for_each [a..b] (body r) s = Inr t \<and> stamped n s (line r) f t"
    if r: "r \<in> set [a..b]" and s: "square n s" "line r \<inter> setcells s = {}" for r s
    unfolding line_def
  proof (rule for_each_stamped)
    show "square n s" by (rule s(1))
  next
    show "distinct [a..b]" by simp
  next
    fix x y :: int
    assume "x \<noteq> y"
    then show "{(row + r, col + x)} \<inter> {(row + r, col + y)} = {}" by simp
  next
    fix x
    assume "x \<in> set [a..b]"
    with s(2) show "{(row + r, col + x)} \<inter> setcells s = {}" unfolding line_def by blast
  next
    fix x u
    assume "x \<in> set [a..b]" "square n u" "{(row + r, col + x)} \<inter> setcells u = {}"
    with r show "\<exists>t. body r x u = Inr t \<and> stamped n u {(row + r, col + x)} f t"
      using cell [of r x u] by simp
  qed
  have blk: "(\<Union>r \<in> set [a..b]. line r) = block row col a b"
  proof (rule set_eqI)
    fix p :: "int \<times> int"
    obtain r c where p: "p = (r, c)" by (cases p)
    have "(r, c) \<in> block row col a b \<Longrightarrow> (r, c) \<in> (\<Union>r \<in> set [a..b]. line r)"
    proof -
      assume "(r, c) \<in> block row col a b"
      then have b: "a \<le> r - row" "r - row \<le> b" "a \<le> c - col" "c - col \<le> b"
        by (simp_all add: block_def)
      then have x: "c - col \<in> set [a..b]" and y: "r - row \<in> set [a..b]" by simp_all
      have "(r, c) = (row + (r - row), col + (c - col))" by simp
      with x have "(r, c) \<in> line (r - row)" unfolding line_def by blast
      with y show ?thesis by blast
    qed
    moreover have "(r, c) \<in> (\<Union>r \<in> set [a..b]. line r) \<Longrightarrow> (r, c) \<in> block row col a b"
      by (auto simp add: line_def block_def)
    ultimately show "p \<in> (\<Union>r \<in> set [a..b]. line r) \<longleftrightarrow> p \<in> block row col a b"
      using p by blast
  qed
  have "\<exists>t. for_each [a..b] (\<lambda>r. for_each [a..b] (body r)) m = Inr t
            \<and> stamped n m (\<Union>r \<in> set [a..b]. line r) f t"
  proof (rule for_each_stamped)
    show "square n m" by (rule sq)
  next
    show "distinct [a..b]" by simp
  next
    fix x y :: int
    assume "x \<noteq> y"
    then show "line x \<inter> line y = {}" by (auto simp add: line_def)
  next
    fix x
    assume "x \<in> set [a..b]"
    then have "line x \<subseteq> block row col a b" using blk by blast
    with free show "line x \<inter> setcells m = {}" by blast
  next
    fix x s
    assume "x \<in> set [a..b]" "square n s" "line x \<inter> setcells s = {}"
    then show "\<exists>t. for_each [a..b] (body x) s = Inr t \<and> stamped n s (line x) f t"
      by (rule inner)
  qed
  with blk show ?thesis by simp
qed

lemma addFinderPattern_stamped:
  assumes sq: "square n m" and free: "block row col (- 1) 7 \<inter> setcells m = {}"
  shows "\<exists>t. addFinderPattern assign_once m row col = Inr t
             \<and> stamped n m (block row col (- 1) 7) (\<lambda>r c. finderDark (r - row) (c - col)) t"
  unfolding addFinderPattern_def
proof (rule for_each_block [OF sq free])
  fix r c s
  assume s: "square n s" and fr: "{(row + r, col + c)} \<inter> setcells s = {}"
  let ?f = "\<lambda>r c. finderDark (r - row) (c - col)"
  let ?body = "let rr = row + r; cc = col + c
     in if rr < 0 \<or> cc < 0 \<or> int (length s) \<le> rr \<or> int (length s) \<le> cc then Inr s
        else assign_once s rr cc (finderDark r c)"
  from s have len: "int (length s) = n" by (simp add: square_def)
  show "\<exists>t. ?body = Inr t \<and> stamped n s {(row + r, col + c)} ?f t"
  proof (cases "row + r < 0 \<or> col + c < 0 \<or> n \<le> row + r \<or> n \<le> col + c")
    case True
    then have "stamped n s {(row + r, col + c)} ?f s"
      by (intro stamped_outside [OF s]) auto
    with True len show ?thesis by (simp add: Let_def)
  next
    case False
    then have "0 \<le> row + r" "row + r < n" "0 \<le> col + c" "col + c < n" by simp_all
    with s have "\<exists>t. assign_once s (row + r) (col + c) (?f (row + r) (col + c)) = Inr t
                      \<and> stamped n s {(row + r, col + c)} ?f t"
      using fr by (rule assign_once_stamped)
    with False len show ?thesis by (simp add: Let_def)
  qed
qed

lemma addAlignmentPattern_stamped:
  assumes sq: "square n m" and row: "2 \<le> row" "row + 2 < n" and col: "2 \<le> col" "col + 2 < n"
    and free: "block row col (- 2) 2 \<inter> setcells m = {}"
  shows "\<exists>t. addAlignmentPattern assign_once m row col = Inr t
             \<and> stamped n m (block row col (- 2) 2) (\<lambda>r c. alignDark (r - row) (c - col)) t"
  unfolding addAlignmentPattern_def
proof (rule for_each_block [OF sq free])
  fix r c :: int and s
  assume rc: "- 2 \<le> r" "r \<le> 2" "- 2 \<le> c" "c \<le> 2"
    and s: "square n s" and fr: "{(row + r, col + c)} \<inter> setcells s = {}"
  let ?f = "\<lambda>r c. alignDark (r - row) (c - col)"
  from rc row col have "0 \<le> row + r" "row + r < n" "0 \<le> col + c" "col + c < n" by simp_all
  with s have "\<exists>t. assign_once s (row + r) (col + c) (?f (row + r) (col + c)) = Inr t
                    \<and> stamped n s {(row + r, col + c)} ?f t"
    using fr by (rule assign_once_stamped)
  then show "\<exists>t. assign_once s (row + r) (col + c) (alignDark r c) = Inr t
                 \<and> stamped n s {(row + r, col + c)} ?f t" by simp
qed

lemma addTiming_stamped:
  assumes sq: "square n m" and free: "timing n \<inter> setcells m = {}"
  shows "\<exists>t. for_each [8..n - 9] (addTiming assign_once) m = Inr t
             \<and> stamped n m (timing n) (\<lambda>r c. (r + c) mod 2 = 0) t"
  unfolding timing_def
proof (rule for_each_stamped)
  show "square n m" by (rule sq)
next
  show "distinct [8..n - 9]" by simp
next
  fix x y :: int
  assume "x \<in> set [8..n - 9]" "y \<in> set [8..n - 9]" "x \<noteq> y"
  then show "{(x, 6), (6, x)} \<inter> {(y, 6), (6, y)} = {}" by auto
next
  fix x
  assume "x \<in> set [8..n - 9]"
  with free show "{(x, 6), (6, x)} \<inter> setcells m = {}" unfolding timing_def by blast
next
  fix i s
  assume i: "i \<in> set [8..n - 9]" and s: "square n s"
    and fr: "{(i, 6), (6, i)} \<inter> setcells s = {}"
  let ?f = "\<lambda>r c :: int. (r + c) mod 2 = 0"
  from i have b: "0 \<le> i" "i < n" "(0::int) \<le> 6" "6 < n" by simp_all
  from fr have "{(i, 6)} \<inter> setcells s = {}" by simp
  with s b have "\<exists>t. assign_once s i 6 (?f i 6) = Inr t \<and> stamped n s {(i, 6)} ?f t"
    by (intro assign_once_stamped)
  then obtain t where t: "assign_once s i 6 (?f i 6) = Inr t" "stamped n s {(i, 6)} ?f t"
    by blast
  from i have "(6, i) \<noteq> (i, 6)" by simp
  with fr have "{(6, i)} \<inter> setcells t = {}"
    unfolding setcells_stamped [OF t(2)] by auto
  with stamped_square [OF t(2)] b
  have "\<exists>u. assign_once t 6 i (?f 6 i) = Inr u \<and> stamped n t {(6, i)} ?f u"
    by (intro assign_once_stamped)
  then obtain u where u: "assign_once t 6 i (?f 6 i) = Inr u" "stamped n t {(6, i)} ?f u"
    by blast
  from t(2) u(2) have "stamped n s ({(i, 6)} \<union> {(6, i)}) ?f u" by (rule stamped_trans)
  then have st: "stamped n s {(i, 6), (6, i)} ?f u" by (simp add: insert_commute)
  have e: "((i + 6) mod 2 = 0) = (i mod 2 = 0)" "((6 + i) mod 2 = 0) = (i mod 2 = 0)"
    by presburger+
  from t(1) u(1) e have "addTiming assign_once i s = Inr u" by (simp add: addTiming_def)
  with st show "\<exists>t. addTiming assign_once i s = Inr t \<and> stamped n s {(i, 6), (6, i)} ?f t"
    by blast
qed

lemma in_block:
  "(r, c) \<in> block row col a b \<longleftrightarrow>
     row + a \<le> r \<and> r \<le> row + b \<and> col + a \<le> c \<and> c \<le> col + b"
  by (simp add: block_def)

lemma in_timing:
  "(r, c) \<in> timing n \<longleftrightarrow> (c = 6 \<and> 8 \<le> r \<and> r \<le> n - 9) \<or> (r = 6 \<and> 8 \<le> c \<and> c \<le> n - 9)"
  by (auto simp add: timing_def)

lemma patterns_run:
  assumes n: "21 \<le> n"
  shows "\<exists>m1 m2 m3 m4.
           addFinderPattern assign_once (createMatrix n) 0 0 = Inr m1
         \<and> addFinderPattern assign_once m1 (n - 7) 0 = Inr m2
         \<and> addFinderPattern assign_once m2 0 (n - 7) = Inr m3
         \<and> for_each [8..n - 9] (addTiming assign_once) m3 = Inr m4
         \<and> pattern_grid n m4"
proof -
  let ?m0 = "createMatrix n"
  let ?G = "\<lambda>R. {(r, c). (r, c) \<in> R \<and> 0 \<le> r \<and> r < n \<and> 0 \<le> c \<and> c < n}"
  from n have sq0: "square n ?m0" by (simp add: square_createMatrix)
  have "block 0 0 (- 1) 7 \<inter> setcells ?m0 = {}" by (simp add: setcells_createMatrix)
  with sq0 obtain m1 where m1: "addFinderPattern assign_once ?m0 0 0 = Inr m1"
    and st1: "stamped n ?m0 (block 0 0 (- 1) 7) (\<lambda>r c. finderDark (r - 0) (c - 0)) m1"
    using addFinderPattern_stamped by blast
  have s1: "setcells m1 = ?G (block 0 0 (- 1) 7)"
    unfolding setcells_stamped [OF st1] by (simp add: setcells_createMatrix)
  from st1 have sq1: "square n m1" by (rule stamped_square)
  from n have "block (n - 7) 0 (- 1) 7 \<inter> setcells m1 = {}"
    unfolding s1 by (auto simp add: in_block)
  with sq1 obtain m2 where m2: "addFinderPattern assign_once m1 (n - 7) 0 = Inr m2"
    and st2: "stamped n m1 (block (n - 7) 0 (- 1) 7) (\<lambda>r c. finderDark (r - (n - 7)) (c - 0)) m2"
    using addFinderPattern_stamped by blast
  have s2: "setcells m2 = ?G (block 0 0 (- 1) 7) \<union> ?G (block (n - 7) 0 (- 1) 7)"
    unfolding setcells_stamped [OF st2] s1 by simp
  from st2 have sq2: "square n m2" by (rule stamped_square)
  from n have "block 0 (n - 7) (- 1) 7 \<inter> setcells m2 = {}"
    unfolding s2 by (auto simp add: in_block)
  with sq2 obtain m3 where m3: "addFinderPattern assign_once m2 0 (n - 7) = Inr m3"
    and st3: "stamped n m2 (block 0 (n - 7) (- 1) 7) (\<lambda>r c. finderDark (r - 0) (c - (n - 7))) m3"
    using addFinderPattern_stamped by blast
  have s3: "setcells m3 = ?G (block 0 0 (- 1) 7) \<union> ?G (block (n - 7) 0 (- 1) 7)
                         \<union> ?G (block 0 (n - 7) (- 1) 7)"
    unfolding setcells_stamped [OF st3] s2 by simp
  from st3 have sq3: "square n m3" by (rule stamped_square)
  from n have "timing n \<inter> setcells m3 = {}"
    unfolding s3 by (auto simp add: in_block in_timing)
  with sq3 obtain m4 where m4: "for_each [8..n - 9] (addTiming assign_once) m3 = Inr m4"
    and st4: "stamped n m3 (timing n) (\<lambda>r c. (r + c) mod 2 = 0) m4"
    using addTiming_stamped by blast
  have s4: "setcells m4 = ?G (block 0 0 (- 1) 7) \<union> ?G (block (n - 7) 0 (- 1) 7)
                         \<union> ?G (block 0 (n - 7) (- 1) 7) \<union> ?G (timing n)"
    unfolding setcells_stamped [OF st4] s3 by simp
  from st4 have sq4: "square n m4" by (rule stamped_square)
  have a: "r \<le> 7 \<or> c \<le> 7" if "(r, c) \<in> setcells m4" for r c
    using that unfolding s4 by (auto simp add: in_block in_timing)
  have b: "(6, i) \<in> setcells m4 \<and> (i, 6) \<in> setcells m4" if "0 \<le> i \<and> i < n" for i
  proof -
    from that n have "(6, i) \<in> setcells m4"
      unfolding s4 by (simp add: in_block in_timing) linarith
    moreover from that n have "(i, 6) \<in> setcells m4"
      unfolding s4 by (simp add: in_block in_timing) linarith
    ultimately show ?thesis ..
  qed
  have c: "look m4 6 i = Some (Some (i mod 2 = 0)) \<and> look m4 i 6 = Some (Some (i mod 2 = 0))"
    if i: "8 \<le> i \<and> i \<le> n - 9" for i
  proof -
    have e: "((i + 6) mod 2 = 0) = (i mod 2 = 0)" "((6 + i) mod 2 = 0) = (i mod 2 = 0)"
      by presburger+
    from i n have "look m4 6 i = Some (Some ((6 + i) mod 2 = 0))"
      unfolding stamped_look [OF st4] by (simp add: in_timing)
    moreover from i n have "look m4 i 6 = Some (Some ((i + 6) mod 2 = 0))"
      unfolding stamped_look [OF st4] by (simp add: in_timing)
    ultimately show ?thesis using e by simp
  qed
  from sq4 a b c have "pattern_grid n m4" unfolding pattern_grid_def by blast
  with m1 m2 m3 m4 show ?thesis by blast
qed

subsection \<open>Alignment patterns\<close>

lemma getAlignmentPos_table:
  "list_all (\<lambda>v. pos_ok (v * 4 + 17) (getAlignmentPos v)) [2..20]"
  by code_simp

lemma getAlignmentPos_ok:
  assumes "1 < v" and "v \<le> 20"
  shows "pos_ok (v * 4 + 17) (getAlignmentPos v)"
proof -
  from assms have "v \<in> {2..20}" by simp
  then have "v \<in> set [2..20]" by (simp only: set_upto)
  with getAlignmentPos_table show ?thesis unfolding list_all_iff by blast
qed

lemma pos_ok_range: "pos_ok n pos \<Longrightarrow> p \<in> set pos \<Longrightarrow> p = 6 \<or> (10 \<le> p \<and> p + 7 \<le> n)"
  unfolding pos_ok_def list_all_iff by blast

lemma pos_ok_apart:
  "pos_ok n pos \<Longrightarrow> p \<in> set pos \<Longrightarrow> q \<in> set pos \<Longrightarrow> \<bar>p - q\<bar> \<le> 4 \<Longrightarrow> p = q"
  unfolding pos_ok_def list_all_iff by fastforce

lemma aligned_start:
  assumes "pattern_grid n m4"
  shows "aligned n ps m4 m4"
proof -
  from assms have "square n m4" and "\<forall>r c. (r, c) \<in> setcells m4 \<longrightarrow> r \<le> 7 \<or> c \<le> 7"
    by (simp_all add: pattern_grid_def)
  then show ?thesis unfolding aligned_def by (blast intro: keeps_refl)
qed

lemma align_step:
  assumes pg: "pattern_grid n m4" and n: "21 \<le> n" and ok: "pos_ok n pos"
    and row: "row \<in> set pos" and col: "col \<in> set pos"
    and inv: "aligned n (set pos) m4 s"
  shows "\<exists>t. (if is_null s row col then addAlignmentPattern assign_once s row col else Inr s) = Inr t
             \<and> aligned n (set pos) m4 t"
proof (cases "is_null s row col")
  case False
  with inv show ?thesis by simp
next
  case True
  from inv have k: "keeps n m4 s" by (simp add: aligned_def)
  then have sq: "square n s" by (rule keeps_square)
  from True have unset: "(row, col) \<notin> setcells s" by (simp add: is_null_def setcells_def)
  from ok row have rr: "row = 6 \<or> (10 \<le> row \<and> row + 7 \<le> n)" by (rule pos_ok_range)
  from ok col have cr: "col = 6 \<or> (10 \<le> col \<and> col + 7 \<le> n)" by (rule pos_ok_range)
  from rr n have rin: "0 \<le> row \<and> row < n" by auto
  from cr n have cin: "0 \<le> col \<and> col < n" by auto
  have "row \<noteq> 6"
  proof
    assume "row = 6"
    moreover from pg cin have "(6, col) \<in> setcells m4" by (simp add: pattern_grid_def)
    ultimately have "(row, col) \<in> setcells s" using k by (simp add: keeps_setcells)
    with unset show False ..
  qed
  with rr have r: "10 \<le> row" "row + 7 \<le> n" by simp_all
  have "col \<noteq> 6"
  proof
    assume "col = 6"
    moreover from pg rin have "(row, 6) \<in> setcells m4" by (simp add: pattern_grid_def)
    ultimately have "(row, col) \<in> setcells s" using k by (simp add: keeps_setcells)
    with unset show False ..
  qed
  with cr have c: "10 \<le> col" "col + 7 \<le> n" by simp_all
  have free: "block row col (- 2) 2 \<inter> setcells s = {}"
  proof (rule ccontr)
    assume "block row col (- 2) 2 \<inter> setcells s \<noteq> {}"
    then obtain a b where ab: "(a, b) \<in> block row col (- 2) 2" "(a, b) \<in> setcells s" by auto
    from ab(1) have near: "\<bar>a - row\<bar> \<le> 2" "\<bar>b - col\<bar> \<le> 2" by (auto simp add: in_block)
    with r c have "\<not> a \<le> 7" "\<not> b \<le> 7" by simp_all
    with inv ab(2) obtain p q where pq: "p \<in> set pos" "q \<in> set pos"
      "\<bar>a - p\<bar> \<le> 2" "\<bar>b - q\<bar> \<le> 2" "(p, q) \<in> setcells s"
      unfolding aligned_def by blast
    from near(1) pq(3) have "\<bar>row - p\<bar> \<le> 4" by simp
    with ok row pq(1) have "row = p" by (rule pos_ok_apart)
    moreover from near(2) pq(4) have "\<bar>col - q\<bar> \<le> 4" by simp
    with ok col pq(2) have "col = q" by (rule pos_ok_apart)
    ultimately show False using pq(5) unset by simp
  qed
  from r c have "2 \<le> row" "row + 2 < n" "2 \<le> col" "col + 2 < n" by simp_all
  with sq obtain t where t: "addAlignmentPattern assign_once s row col = Inr t"
    and st: "stamped n s (block row col (- 2) 2) (\<lambda>r c. alignDark (r - row) (c - col)) t"
    using free addAlignmentPattern_stamped by blast
  from st free have kt: "keeps n s t" by (rule keeps_stamped)
  with k have k4: "keeps n m4 t" by (rule keeps_trans)
  from r c have centre: "(row, col) \<in> setcells t"
    unfolding setcells_stamped [OF st] by (simp add: in_block)
  have "a \<le> 7 \<or> b \<le> 7 \<or>
        (\<exists>p q. p \<in> set pos \<and> q \<in> set pos \<and> \<bar>a - p\<bar> \<le> 2 \<and> \<bar>b - q\<bar> \<le> 2 \<and> (p, q) \<in> setcells t)"
    if ab: "(a, b) \<in> setcells t" for a b
  proof (cases "(a, b) \<in> setcells s")
    case True
    with inv have "a \<le> 7 \<or> b \<le> 7 \<or>
        (\<exists>p q. p \<in> set pos \<and> q \<in> set pos \<and> \<bar>a - p\<bar> \<le> 2 \<and> \<bar>b - q\<bar> \<le> 2 \<and> (p, q) \<in> setcells s)"
      unfolding aligned_def by blast
    with kt show ?thesis by (blast intro: keeps_setcells)
  next
    case False
    with ab have "(a, b) \<in> block row col (- 2) 2"
      unfolding setcells_stamped [OF st] by simp
    then have "\<bar>a - row\<bar> \<le> 2" "\<bar>b - col\<bar> \<le> 2" by (auto simp add: in_block)
    with row col centre show ?thesis by blast
  qed
  with k4 have "aligned n (set pos) m4 t" unfolding aligned_def by blast
  with True t show ?thesis by simp
qed

lemma addAlignment_run:
  assumes pg: "pattern_grid n m4" and n: "21 \<le> n" and ok: "pos_ok n pos"
  shows "\<exists>m5. addAlignment assign_once pos m4 = Inr m5 \<and> keeps n m4 m5"
proof -
  have "\<exists>t. for_each pos (\<lambda>row. for_each pos (\<lambda>col m.
               if is_null m row col then addAlignmentPattern assign_once m row col else Inr m)) m4
             = Inr t \<and> aligned n (set pos) m4 t"
  proof (rule for_each_inv)
    from pg show "aligned n (set pos) m4 m4" by (rule aligned_start)
  next
    fix row s
    assume row: "row \<in> set pos" and s: "aligned n (set pos) m4 s"
    show "\<exists>t. for_each pos (\<lambda>col m.
               if is_null m row col then addAlignmentPattern assign_once m row col else Inr m) s
             = Inr t \<and> aligned n (set pos) m4 t"
    proof (rule for_each_inv)
      show "aligned n (set pos) m4 s" by (rule s)
    next
      fix col u
      assume "col \<in> set pos" and "aligned n (set pos) m4 u"
      with pg n ok row
      show "\<exists>t. (if is_null u row col then addAlignmentPattern assign_once u row col else Inr u)
                 = Inr t \<and> aligned n (set pos) m4 t"
        by (rule align_step)
    qed
  qed
  then show ?thesis by (auto simp add: addAlignment_def aligned_def)
qed

subsection \<open>Data placement\<close>

lemma visit_null:
  assumes "is_null m row cc"
  shows "visit w wm bits row cc (m, i) =
     (case w m row cc (if i < length bits then bits ! i = 1 else False) of
        Inl e \<Rightarrow> Inl e
      | Inr m' \<Rightarrow>
          if (row + cc) mod 2 = 0
          then (case wm m' row cc (\<not> truthy (look m' row cc)) of
                  Inl e \<Rightarrow> Inl e
                | Inr m'' \<Rightarrow> Inr (m'', if i < length bits then i + 1 else i))
          else Inr (m', if i < length bits then i + 1 else i))"
  using assms by (simp only: visit_def prod.case if_True Let_def)

lemma visit_set: "\<not> is_null m row cc \<Longrightarrow> visit w wm bits row cc (m, i) = Inr (m, i)"
  by (simp add: visit_def)

text \<open>
  One visit under the monitored store for the bit and the plain store for the mask flip:
  it returns, it changes no module but the one it visits, and not that one if it is set.
\<close>

lemma visit_run:
  assumes sq: "square n m" and row: "0 \<le> row" "row < n" and cc: "0 \<le> cc" "cc < n"
  shows "\<exists>m' i'. visit assign_once assign bits row cc (m, i) = Inr (m', i')
                \<and> keeps n m m' \<and> (row, cc) \<in> setcells m'
                \<and> (\<forall>r c. (r, c) \<noteq> (row, cc) \<longrightarrow> look m' r c = look m r c)
                \<and> (\<not> is_null m row cc \<longrightarrow> m' = m)"
proof (cases "is_null m row cc")
  case True
  let ?b = "if i < length bits then bits ! i = 1 else False"
  let ?i' = "if i < length bits then i + 1 else i"
  from True have free: "{(row, cc)} \<inter> setcells m = {}"
    by (simp add: is_null_def setcells_def)
  with sq row cc
  have "\<exists>t. assign_once m row cc ((\<lambda>r c. ?b) row cc) = Inr t
            \<and> stamped n m {(row, cc)} (\<lambda>r c. ?b) t"
    by (rule assign_once_stamped)
  then obtain t where t: "assign_once m row cc ?b = Inr t"
    and st: "stamped n m {(row, cc)} (\<lambda>r c. ?b) t" by blast
  from st have sqt: "square n t" by (rule stamped_square)
  from st free have kt: "keeps n m t" by (rule keeps_stamped)
  from row cc have int: "(row, cc) \<in> setcells t"
    unfolding setcells_stamped [OF st] by simp
  have othert: "look t r c = look m r c" if "(r, c) \<noteq> (row, cc)" for r c
  proof -
    from that have "(r, c) \<notin> {(row, cc)}" by simp
    with st show ?thesis by (rule stamped_other)
  qed
  from True t have v: "visit assign_once assign bits row cc (m, i) =
      (if (row + cc) mod 2 = 0
       then (case assign t row cc (\<not> truthy (look t row cc)) of
               Inl e \<Rightarrow> Inl e
             | Inr m'' \<Rightarrow> Inr (m'', ?i'))
       else Inr (t, ?i'))"
    by (simp only: visit_null sum.case)
  show ?thesis
  proof (cases "(row + cc) mod 2 = 0")
    case False
    with v have "visit assign_once assign bits row cc (m, i) = Inr (t, ?i')" by simp
    with kt int othert True show ?thesis by blast
  next
    case even: True
    let ?v = "\<not> truthy (look t row cc)"
    from sqt row cc obtain u where u: "assign t row cc ?v = Inr u"
      and su: "stamped n t {(row, cc)} (\<lambda>r c. ?v) u"
      using assign_stamped by blast
    from su have squ: "square n u" by (rule stamped_square)
    have otheru: "look u r c = look m r c" if "(r, c) \<noteq> (row, cc)" for r c
    proof -
      from that have "(r, c) \<notin> {(row, cc)}" by simp
      with su have "look u r c = look t r c" by (rule stamped_other)
      with that othert show ?thesis by simp
    qed
    have ku: "keeps n m u"
      unfolding keeps_def
    proof (intro conjI allI impI)
      show "square n u" by (rule squ)
    next
      fix r c b
      assume a: "look m r c = Some (Some b)"
      then have "(r, c) \<in> setcells m" by (auto simp add: setcells_def)
      with free have "(r, c) \<noteq> (row, cc)" by auto
      with a otheru show "look u r c = Some (Some b)" by simp
    qed
    from row cc have inu: "(row, cc) \<in> setcells u"
      unfolding setcells_stamped [OF su] by simp
    from v even u have "visit assign_once assign bits row cc (m, i) = Inr (u, ?i')" by simp
    with ku inu otheru True show ?thesis by blast
  qed
next
  case False
  from sq row cc have "look m row cc = Some (m ! nat row ! nat cc)" by (simp add: look_square)
  with False obtain b where "look m row cc = Some (Some b)"
    by (cases "m ! nat row ! nat cc") (simp_all add: is_null_def)
  then have "(row, cc) \<in> setcells m" by (auto simp add: setcells_def)
  moreover from sq have "keeps n m m" by (rule keeps_refl)
  moreover from False have "visit assign_once assign bits row cc (m, i) = Inr (m, i)"
    by (rule visit_set)
  ultimately show ?thesis by blast
qed

lemma pair_run:
  assumes sq: "square n (fst (s :: matrix \<times> nat))" and row: "0 \<le> row" "row < n" and col: "1 \<le> col" "col < n"
  shows "\<exists>s'. for_each [0..1] (\<lambda>c. visit assign_once assign bits row (col - c)) s = Inr s'
              \<and> keeps n (fst s) (fst s')
              \<and> (row, col) \<in> setcells (fst s') \<and> (row, col - 1) \<in> setcells (fst s')"
proof -
  obtain m i where s: "s = (m, i)" by (cases s)
  from sq s have sqm: "square n m" by simp
  from col have c0: "0 \<le> col" by simp
  from sqm row c0 col(2) obtain m1 i1 where
    v1: "visit assign_once assign bits row col (m, i) = Inr (m1, i1)"
    and k1: "keeps n m m1" and in1: "(row, col) \<in> setcells m1"
    using visit_run by blast
  from k1 have sq1: "square n m1" by (rule keeps_square)
  from col have c1: "0 \<le> col - 1" "col - 1 < n" by simp_all
  from sq1 row c1 obtain m2 i2 where
    v2: "visit assign_once assign bits row (col - 1) (m1, i1) = Inr (m2, i2)"
    and k2: "keeps n m1 m2" and in2: "(row, col - 1) \<in> setcells m2"
    using visit_run by blast
  have l: "[0..1] = [0, 1 :: int]" by (simp add: upto_rec1)
  from v1 v2 have "for_each [0..1] (\<lambda>c. visit assign_once assign bits row (col - c)) s = Inr (m2, i2)"
    unfolding l s by simp
  moreover from k1 k2 have "keeps n m m2" by (rule keeps_trans)
  moreover from k2 in1 have "(row, col) \<in> setcells m2" by (rule keeps_setcells)
  ultimately show ?thesis using in2 s by auto
qed

lemma rows_run:
  assumes sq: "square n (fst (s :: matrix \<times> nat))" and rs: "\<And>r. r \<in> set rs \<Longrightarrow> 0 \<le> r \<and> r < n"
    and col: "1 \<le> col" "col < n"
  shows "\<exists>s'. for_each rs (\<lambda>r. for_each [0..1] (\<lambda>c. visit assign_once assign bits r (col - c))) s = Inr s'
              \<and> keeps n (fst s) (fst s')
              \<and> (\<forall>r \<in> set rs. (r, col) \<in> setcells (fst s') \<and> (r, col - 1) \<in> setcells (fst s'))"
proof -
  let ?I = "\<lambda>t :: matrix \<times> nat. keeps n (fst s) (fst t)"
  let ?P = "\<lambda>r (t :: matrix \<times> nat). (r, col) \<in> setcells (fst t) \<and> (r, col - 1) \<in> setcells (fst t)"
  let ?body = "\<lambda>r. for_each [0..1] (\<lambda>c. visit assign_once assign bits r (col - c))"
  have "\<exists>t'. for_each rs ?body s = Inr t' \<and> ?I t' \<and> (\<forall>x \<in> set rs. ?P x t')
             \<and> (\<forall>y. ?P y s \<longrightarrow> ?P y t')"
  proof (rule for_each_post)
    from sq show "?I s" by (rule keeps_refl)
  next
    fix r t
    assume r: "r \<in> set rs" and t: "?I t"
    from t have "square n (fst t)" by (rule keeps_square)
    moreover from r have "0 \<le> r" "r < n" using rs by simp_all
    ultimately obtain t' where t': "?body r t = Inr t'" "keeps n (fst t) (fst t')" "?P r t'"
      using col pair_run by blast
    from t t'(2) have "?I t'" by (rule keeps_trans)
    moreover from t'(2) have "\<forall>y. ?P y t \<longrightarrow> ?P y t'" by (blast intro: keeps_setcells)
    ultimately show "\<exists>t'. ?body r t = Inr t' \<and> ?I t' \<and> ?P r t' \<and> (\<forall>y. ?P y t \<longrightarrow> ?P y t')"
      using t'(1,3) by blast
  qed
  then show ?thesis by blast
qed

text \<open>
  With \<open>dir\<close> equal to \<open>-1\<close> or \<open>1\<close> the row loop returns: it is the loop over the rows
  from \<open>row\<close> up to the top, or down to the bottom.
\<close>

lemma fillRows_up:
  assumes "- 1 \<le> row" and "row < sz"
  shows "fillRows w wm bits sz (- 1) col row s =
         Some (for_each (rev [0..row]) (\<lambda>r. for_each [0..1] (\<lambda>c. visit w wm bits r (col - c))) s)"
  using assms
proof (induction "nat (row + 1)" arbitrary: row s)
  case 0
  then have "row = - 1" by simp
  then show ?case by (simp add: fillRows.simps [of w wm bits sz "- 1" col "- 1" s])
next
  case (Suc k)
  then have row: "0 \<le> row" "row < sz" by simp_all
  from row(1) have l: "rev [0..row] = row # rev [0..row - 1]" by (simp add: upto_rec2)
  show ?case
  proof (cases "for_each [0..1] (\<lambda>c. visit w wm bits row (col - c)) s")
    case (Inl e)
    with row show ?thesis
      unfolding l by (simp add: fillRows.simps [of w wm bits sz "- 1" col row s])
  next
    case (Inr s')
    from Suc.hyps(2) have "k = nat (row - 1 + 1)" by simp
    moreover from row have "- 1 \<le> row - 1" "row - 1 < sz" by simp_all
    ultimately have "fillRows w wm bits sz (- 1) col (row - 1) s' =
        Some (for_each (rev [0..row - 1]) (\<lambda>r. for_each [0..1] (\<lambda>c. visit w wm bits r (col - c))) s')"
      by (rule Suc.hyps(1))
    with Inr row show ?thesis
      unfolding l by (simp add: fillRows.simps [of w wm bits sz "- 1" col row s])
  qed
qed

lemma fillRows_down:
  assumes "0 \<le> row" and "row \<le> sz"
  shows "fillRows w wm bits sz 1 col row s =
         Some (for_each [row..sz - 1] (\<lambda>r. for_each [0..1] (\<lambda>c. visit w wm bits r (col - c))) s)"
  using assms
proof (induction "nat (sz - row)" arbitrary: row s)
  case 0
  then have "row = sz" by simp
  then show ?case by (simp add: fillRows.simps [of w wm bits sz 1 col sz s])
next
  case (Suc k)
  then have row: "0 \<le> row" "row < sz" by simp_all
  then have l: "[row..sz - 1] = row # [row + 1..sz - 1]" by (simp add: upto_rec1)
  show ?case
  proof (cases "for_each [0..1] (\<lambda>c. visit w wm bits row (col - c)) s")
    case (Inl e)
    with row show ?thesis
      unfolding l by (simp add: fillRows.simps [of w wm bits sz 1 col row s])
  next
    case (Inr s')
    from Suc.hyps(2) have "k = nat (sz - (row + 1))" by simp
    moreover from row have "0 \<le> row + 1" "row + 1 \<le> sz" by simp_all
    ultimately have "fillRows w wm bits sz 1 col (row + 1) s' =
        Some (for_each [row + 1..sz - 1] (\<lambda>r. for_each [0..1] (\<lambda>c. visit w wm bits r (col - c))) s')"
      by (rule Suc.hyps(1))
    with Inr row show ?thesis
      unfolding l by (simp add: fillRows.simps [of w wm bits sz 1 col row s])
  qed
qed

lemma fillRows_pass:
  assumes "dir = - 1 \<or> dir = 1" and "0 \<le> sz"
  shows "fillRows w wm bits sz dir col (if dir < 0 then sz - 1 else 0) s =
         Some (for_each (pass_rows sz dir)
                 (\<lambda>r. for_each [0..1] (\<lambda>c. visit w wm bits r (col - c))) s)"
proof (cases "dir = - 1")
  case True
  with assms(2) show ?thesis by (simp add: pass_rows_def fillRows_up)
next
  case False
  with assms have "dir = 1" by simp
  with assms(2) show ?thesis by (simp add: pass_rows_def fillRows_down)
qed

lemma set_pass_rows: "r \<in> set (pass_rows sz dir) \<Longrightarrow> 0 \<le> r \<and> r < sz"
  by (auto simp add: pass_rows_def split: if_splits)

lemma pass_rows_all: "0 \<le> r \<Longrightarrow> r < sz \<Longrightarrow> r \<in> set (pass_rows sz dir)"
  by (simp add: pass_rows_def)

lemma fillCols_run:
  assumes "square n m" and "dir = - 1 \<or> dir = 1" and "- 1 \<le> col" and "col < n"
    and "odd col \<or> 6 \<le> col" and "filled_from n col m"
  shows "\<exists>m' i'. fillCols assign_once assign bits n dir col (m, i) = Some (Inr (m', i'))
                \<and> keeps n m m' \<and> filled_from n (- 1) m'"
  using assms
proof (induction "nat (col + 1)" arbitrary: col dir m i rule: less_induct)
  case less
  show ?case
  proof (cases "0 < col")
    case False
    with less.prems(3,5) have "col = - 1" by presburger
    with less.prems(1,6) show ?thesis
      by (simp add: fillCols.simps [of assign_once assign bits n dir "- 1" "(m, i)"] keeps_refl)
  next
    case True
    define col' where "col' = (if col = 6 then col - 1 else col)"
    from True less.prems(4) have c': "1 \<le> col'" "col' < n" by (simp_all add: col'_def)
    from True less.prems(4) have n0: "0 \<le> n" by simp
    have rows: "fillRows assign_once assign bits n dir col' (if dir < 0 then n - 1 else 0) (m, i) =
        Some (for_each (pass_rows n dir)
                (\<lambda>r. for_each [0..1] (\<lambda>c. visit assign_once assign bits r (col' - c))) (m, i))"
      using less.prems(2) n0 by (rule fillRows_pass)
    from less.prems(1) have "square n (fst (m, i))" by simp
    then have "\<exists>s'. for_each (pass_rows n dir)
                      (\<lambda>r. for_each [0..1] (\<lambda>c. visit assign_once assign bits r (col' - c))) (m, i) = Inr s'
          \<and> keeps n (fst (m, i)) (fst s')
          \<and> (\<forall>r \<in> set (pass_rows n dir).
                (r, col') \<in> setcells (fst s') \<and> (r, col' - 1) \<in> setcells (fst s'))"
      using set_pass_rows c' by (rule rows_run)
    then obtain m1 i1 where
      pass: "for_each (pass_rows n dir)
               (\<lambda>r. for_each [0..1] (\<lambda>c. visit assign_once assign bits r (col' - c))) (m, i) = Inr (m1, i1)"
      and k1: "keeps n m m1"
      and set1: "\<forall>r \<in> set (pass_rows n dir). (r, col') \<in> setcells m1 \<and> (r, col' - 1) \<in> setcells m1"
      by auto
    from k1 have sq1: "square n m1" by (rule keeps_square)
    have filled1: "filled_from n (col' - 2) m1"
      unfolding filled_from_def
    proof (intro allI impI)
      fix r c
      assume a: "0 \<le> r \<and> r < n \<and> col' - 2 < c \<and> c < n \<and> c \<noteq> 6"
      then have r: "r \<in> set (pass_rows n dir)" by (simp add: pass_rows_all)
      show "(r, c) \<in> setcells m1"
      proof (cases "c = col' \<or> c = col' - 1")
        case True
        with r set1 show ?thesis by auto
      next
        case False
        with a have "col < c" by (auto simp add: col'_def split: if_splits)
        with a less.prems(6) have "(r, c) \<in> setcells m" by (simp add: filled_from_def)
        with k1 show ?thesis by (rule keeps_setcells)
      qed
    qed
    have "\<exists>m' i'. fillCols assign_once assign bits n (- dir) (col' - 2) (m1, i1) = Some (Inr (m', i'))
                 \<and> keeps n m1 m' \<and> filled_from n (- 1) m'"
    proof (rule less.hyps)
      from True show "nat (col' - 2 + 1) < nat (col + 1)" by (simp add: col'_def)
    next
      show "square n m1" by (rule sq1)
    next
      from less.prems(2) show "- dir = - 1 \<or> - dir = 1" by auto
    next
      from c' show "- 1 \<le> col' - 2" by simp
    next
      from c' show "col' - 2 < n" by simp
    next
      from True less.prems(5) show "odd (col' - 2) \<or> 6 \<le> col' - 2"
        unfolding col'_def by presburger
    next
      show "filled_from n (col' - 2) m1" by (rule filled1)
    qed
    then obtain m' i' where
      rec: "fillCols assign_once assign bits n (- dir) (col' - 2) (m1, i1) = Some (Inr (m', i'))"
      and k2: "keeps n m1 m'" and f2: "filled_from n (- 1) m'" by blast
    from True rows pass rec
    have "fillCols assign_once assign bits n dir col (m, i) = Some (Inr (m', i'))"
      by (simp add: fillCols.simps [of assign_once assign bits n dir col "(m, i)"] col'_def Let_def)
    moreover from k1 k2 have "keeps n m m'" by (rule keeps_trans)
    ultimately show ?thesis using f2 by blast
  qed
qed

lemma fillData_run:
  assumes sq: "square n m" and n: "7 \<le> n"
  shows "\<exists>g. fillData assign_once assign m data version = Some (Inr g)
            \<and> keeps n m g \<and> filled_from n (- 1) g"
proof -
  from sq have len: "int (length m) = n" by (simp add: square_def)
  have "\<exists>m' i'. fillCols assign_once assign (buildBits data version) n (- 1) (n - 1) (m, 0)
                  = Some (Inr (m', i'))
               \<and> keeps n m m' \<and> filled_from n (- 1) m'"
  proof (rule fillCols_run)
    show "square n m" by (rule sq)
  next
    show "- 1 = - 1 \<or> - 1 = (1::int)" by simp
  next
    from n show "- 1 \<le> n - 1" by simp
  next
    show "n - 1 < n" by simp
  next
    from n show "odd (n - 1) \<or> 6 \<le> n - 1" by simp
  next
    show "filled_from n (n - 1) m" unfolding filled_from_def by (intro allI impI) linarith
  qed
  then obtain m' i' where
    "fillCols assign_once assign (buildBits data version) n (- 1) (n - 1) (m, 0) = Some (Inr (m', i'))"
    and "keeps n m m'" and "filled_from n (- 1) m'" by blast
  with len show ?thesis by (simp add: fillData_def Let_def)
qed

subsection \<open>From the monitored store to the plain one\<close>

text \<open>
  A run that succeeds under \<open>assign_once\<close> is a run of the code: \<open>assign\<close> gives the same
  grids step by step.
\<close>

lemma addFinderPattern_plain:
  assumes "addFinderPattern assign_once m row col = Inr t"
  shows "addFinderPattern assign m row col = Inr t"
  using assms unfolding addFinderPattern_def
proof (rule for_each_mono)
  fix r :: int and u u' :: matrix
  assume "for_each [- 1..7] (\<lambda>c m. let rr = row + r; cc = col + c
            in if rr < 0 \<or> cc < 0 \<or> int (length m) \<le> rr \<or> int (length m) \<le> cc then Inr m
               else assign_once m rr cc (finderDark r c)) u = Inr u'"
  then show "for_each [- 1..7] (\<lambda>c m. let rr = row + r; cc = col + c
            in if rr < 0 \<or> cc < 0 \<or> int (length m) \<le> rr \<or> int (length m) \<le> cc then Inr m
               else assign m rr cc (finderDark r c)) u = Inr u'"
  proof (rule for_each_mono)
    fix c :: int and v v' :: matrix
    let ?out = "row + r < 0 \<or> col + c < 0 \<or> int (length v) \<le> row + r \<or> int (length v) \<le> col + c"
    assume a: "(let rr = row + r; cc = col + c
            in if rr < 0 \<or> cc < 0 \<or> int (length v) \<le> rr \<or> int (length v) \<le> cc then Inr v
               else assign_once v rr cc (finderDark r c)) = Inr v'"
    show "(let rr = row + r; cc = col + c
            in if rr < 0 \<or> cc < 0 \<or> int (length v) \<le> rr \<or> int (length v) \<le> cc then Inr v
               else assign v rr cc (finderDark r c)) = Inr v'"
    proof (cases ?out)
      case True
      with a show ?thesis by (simp add: Let_def)
    next
      case False
      with a have "assign_once v (row + r) (col + c) (finderDark r c) = Inr v'"
        by (simp add: Let_def)
      then have "assign v (row + r) (col + c) (finderDark r c) = Inr v'" by (rule assign_once_Inr)
      with False show ?thesis by (simp add: Let_def)
    qed
  qed
qed

lemma addAlignmentPattern_plain:
  assumes "addAlignmentPattern assign_once m row col = Inr t"
  shows "addAlignmentPattern assign m row col = Inr t"
  using assms unfolding addAlignmentPattern_def
proof (rule for_each_mono)
  fix r :: int and u u' :: matrix
  assume "for_each [- 2..2] (\<lambda>c m. assign_once m (row + r) (col + c) (alignDark r c)) u = Inr u'"
  then show "for_each [- 2..2] (\<lambda>c m. assign m (row + r) (col + c) (alignDark r c)) u = Inr u'"
    by (rule for_each_mono) (rule assign_once_Inr)
qed

lemma addTiming_plain:
  assumes "addTiming assign_once i m = Inr t"
  shows "addTiming assign i m = Inr t"
proof (cases "assign_once m i 6 (i mod 2 = 0)")
  case (Inl e)
  with assms show ?thesis by (simp add: addTiming_def)
next
  case (Inr u)
  with assms have "assign_once u 6 i (i mod 2 = 0) = Inr t" by (simp add: addTiming_def)
  then have "assign u 6 i (i mod 2 = 0) = Inr t" by (rule assign_once_Inr)
  moreover from Inr have "assign m i 6 (i mod 2 = 0) = Inr u" by (rule assign_once_Inr)
  ultimately show ?thesis by (simp add: addTiming_def)
qed

lemma timing_loop_plain:
  assumes "for_each xs (addTiming assign_once) m = Inr t"
  shows "for_each xs (addTiming assign) m = Inr t"
  using assms by (rule for_each_mono) (rule addTiming_plain)

lemma addAlignment_plain:
  assumes "addAlignment assign_once pos m = Inr t"
  shows "addAlignment assign pos m = Inr t"
  using assms unfolding addAlignment_def
proof (rule for_each_mono)
  fix row :: int and u u' :: matrix
  assume "for_each pos (\<lambda>col m. if is_null m row col
            then addAlignmentPattern assign_once m row col else Inr m) u = Inr u'"
  then show "for_each pos (\<lambda>col m. if is_null m row col
            then addAlignmentPattern assign m row col else Inr m) u = Inr u'"
  proof (rule for_each_mono)
    fix col :: int and v v' :: matrix
    assume "(if is_null v row col then addAlignmentPattern assign_once v row col else Inr v) = Inr v'"
    then show "(if is_null v row col then addAlignmentPattern assign v row col else Inr v) = Inr v'"
      by (simp add: addAlignmentPattern_plain split: if_splits)
  qed
qed

lemma visit_plain:
  assumes "visit assign_once assign bits row cc s = Inr s'"
  shows "visit assign assign bits row cc s = Inr s'"
proof -
  obtain m i where s: "s = (m, i)" by (cases s)
  from assms have a: "visit assign_once assign bits row cc (m, i) = Inr s'" unfolding s .
  have "visit assign assign bits row cc (m, i) = Inr s'"
  proof (cases "is_null m row cc")
    case False
    then have "visit assign_once assign bits row cc (m, i) = Inr (m, i)"
      and "visit assign assign bits row cc (m, i) = Inr (m, i)" by (simp_all add: visit_set)
    with a show ?thesis by simp
  next
    case True
    let ?b = "if i < length bits then bits ! i = 1 else False"
    show ?thesis
    proof (cases "assign_once m row cc ?b")
      case (Inl e)
      with a True show ?thesis by (simp only: visit_null sum.case) simp
    next
      case (Inr t)
      then have "assign m row cc ?b = Inr t" by (rule assign_once_Inr)
      with a True Inr show ?thesis by (simp only: visit_null sum.case)
    qed
  qed
  then show ?thesis unfolding s .
qed

lemma rows_plain:
  assumes "for_each rs (\<lambda>r. for_each [0..1] (\<lambda>c. visit assign_once assign bits r (col - c))) s = Inr s'"
  shows "for_each rs (\<lambda>r. for_each [0..1] (\<lambda>c. visit assign assign bits r (col - c))) s = Inr s'"
  using assms
proof (rule for_each_mono)
  fix r :: int and u u' :: "matrix \<times> nat"
  assume "for_each [0..1] (\<lambda>c. visit assign_once assign bits r (col - c)) u = Inr u'"
  then show "for_each [0..1] (\<lambda>c. visit assign assign bits r (col - c)) u = Inr u'"
    by (rule for_each_mono) (rule visit_plain)
qed

lemma fillCols_step:
  assumes "0 < col"
  shows "fillCols w wm bits n dir col s =
     (case fillRows w wm bits n dir (if col = 6 then col - 1 else col)
             (if dir < 0 then n - 1 else 0) s of
        None \<Rightarrow> None
      | Some (Inl e) \<Rightarrow> Some (Inl e)
      | Some (Inr s') \<Rightarrow> fillCols w wm bits n (- dir) ((if col = 6 then col - 1 else col) - 2) s')"
  using assms by (subst fillCols.simps) (simp only: if_True Let_def)

lemma fillCols_plain:
  assumes "fillCols assign_once assign bits n dir col s = Some (Inr s')"
    and "dir = - 1 \<or> dir = 1" and "0 \<le> n"
  shows "fillCols assign assign bits n dir col s = Some (Inr s')"
  using assms
proof (induction "nat (col + 1)" arbitrary: col dir s rule: less_induct)
  case less
  show ?case
  proof (cases "0 < col")
    case False
    then have e1: "fillCols assign_once assign bits n dir col s = Some (Inr s)"
      by (simp add: fillCols.simps [of assign_once assign bits n dir col s])
    from False have e2: "fillCols assign assign bits n dir col s = Some (Inr s)"
      by (simp add: fillCols.simps [of assign assign bits n dir col s])
    from less.prems(1) e1 have "s' = s" by simp
    with e2 show ?thesis by simp
  next
    case True
    define col' where "col' = (if col = 6 then col - 1 else col)"
    let ?once = "for_each (pass_rows n dir)
                   (\<lambda>r. for_each [0..1] (\<lambda>c. visit assign_once assign bits r (col' - c))) s"
    let ?plain = "for_each (pass_rows n dir)
                   (\<lambda>r. for_each [0..1] (\<lambda>c. visit assign assign bits r (col' - c))) s"
    have r1: "fillRows assign_once assign bits n dir col' (if dir < 0 then n - 1 else 0) s = Some ?once"
      using less.prems(2,3) by (rule fillRows_pass)
    have r2: "fillRows assign assign bits n dir col' (if dir < 0 then n - 1 else 0) s = Some ?plain"
      using less.prems(2,3) by (rule fillRows_pass)
    have step1: "fillCols assign_once assign bits n dir col s =
        (case fillRows assign_once assign bits n dir col' (if dir < 0 then n - 1 else 0) s of
           None \<Rightarrow> None
         | Some (Inl e) \<Rightarrow> Some (Inl e)
         | Some (Inr s') \<Rightarrow> fillCols assign_once assign bits n (- dir) (col' - 2) s')"
      unfolding col'_def using True by (rule fillCols_step)
    have step2: "fillCols assign assign bits n dir col s =
        (case fillRows assign assign bits n dir col' (if dir < 0 then n - 1 else 0) s of
           None \<Rightarrow> None
         | Some (Inl e) \<Rightarrow> Some (Inl e)
         | Some (Inr s') \<Rightarrow> fillCols assign assign bits n (- dir) (col' - 2) s')"
      unfolding col'_def using True by (rule fillCols_step)
    from less.prems(1) have run:
      "(case ?once of Inl e \<Rightarrow> Some (Inl e)
        | Inr s1 \<Rightarrow> fillCols assign_once assign bits n (- dir) (col' - 2) s1) = Some (Inr s')"
      unfolding step1 r1 by simp
    then obtain s1 where s1: "?once = Inr s1"
      and rec: "fillCols assign_once assign bits n (- dir) (col' - 2) s1 = Some (Inr s')"
      by (cases ?once) simp_all
    from s1 have p1: "?plain = Inr s1" by (rule rows_plain)
    have "fillCols assign assign bits n (- dir) (col' - 2) s1 = Some (Inr s')"
    proof (rule less.hyps)
      from True show "nat (col' - 2 + 1) < nat (col + 1)" by (simp add: col'_def)
    next
      show "fillCols assign_once assign bits n (- dir) (col' - 2) s1 = Some (Inr s')" by (rule rec)
    next
      from less.prems(2) show "- dir = - 1 \<or> - dir = 1" by auto
    next
      show "0 \<le> n" by (rule less.prems(3))
    qed
    then show ?thesis unfolding step2 r2 p1 by simp
  qed
qed

lemma fillData_plain:
  assumes "fillData assign_once assign m data version = Some (Inr g)"
  shows "fillData assign assign m data version = Some (Inr g)"
proof -
  let ?n = "int (length m)"
  let ?bits = "buildBits data version"
  from assms obtain i where
    "fillCols assign_once assign ?bits ?n (- 1) (?n - 1) (m, 0) = Some (Inr (g, i))"
    by (auto simp add: fillData_def Let_def split: option.splits sum.splits)
  then have "fillCols assign assign ?bits ?n (- 1) (?n - 1) (m, 0) = Some (Inr (g, i))"
    by (rule fillCols_plain) simp_all
  then show ?thesis by (simp add: fillData_def Let_def)
qed

subsection \<open>The whole run\<close>

lemma applyMask_plain:
  assumes "applyMask assign_once assign m data version e = Some (Inr g)"
  shows "applyMask assign assign m data version e = Some (Inr g)"
proof -
  let ?n = "int (length m)"
  from assms obtain m1 where m1: "addFinderPattern assign_once m 0 0 = Inr m1"
    and r1: "(case addFinderPattern assign_once m1 (?n - 7) 0 of Inl x \<Rightarrow> Some (Inl x) | Inr m2 \<Rightarrow>
             (case addFinderPattern assign_once m2 0 (?n - 7) of Inl x \<Rightarrow> Some (Inl x) | Inr m3 \<Rightarrow>
             (case for_each [8..?n - 9] (addTiming assign_once) m3 of Inl x \<Rightarrow> Some (Inl x) | Inr m4 \<Rightarrow>
             (case (if version > 1 then addAlignment assign_once (getAlignmentPos version) m4
                    else Inr m4) of
                Inl x \<Rightarrow> Some (Inl x)
              | Inr m5 \<Rightarrow> fillData assign_once assign m5 data version)))) = Some (Inr g)"
    by (cases "addFinderPattern assign_once m 0 0") (simp_all add: applyMask_def Let_def)
  from r1 obtain m2 where m2: "addFinderPattern assign_once m1 (?n - 7) 0 = Inr m2"
    and r2: "(case addFinderPattern assign_once m2 0 (?n - 7) of Inl x \<Rightarrow> Some (Inl x) | Inr m3 \<Rightarrow>
             (case for_each [8..?n - 9] (addTiming assign_once) m3 of Inl x \<Rightarrow> Some (Inl x) | Inr m4 \<Rightarrow>
             (case (if version > 1 then addAlignment assign_once (getAlignmentPos version) m4
                    else Inr m4) of
                Inl x \<Rightarrow> Some (Inl x)
              | Inr m5 \<Rightarrow> fillData assign_once assign m5 data version))) = Some (Inr g)"
    by (cases "addFinderPattern assign_once m1 (?n - 7) 0") simp_all
  from r2 obtain m3 where m3: "addFinderPattern assign_once m2 0 (?n - 7) = Inr m3"
    and r3: "(case for_each [8..?n - 9] (addTiming assign_once) m3 of Inl x \<Rightarrow> Some (Inl x) | Inr m4 \<Rightarrow>
             (case (if version > 1 then addAlignment assign_once (getAlignmentPos version) m4
                    else Inr m4) of
                Inl x \<Rightarrow> Some (Inl x)
              | Inr m5 \<Rightarrow> fillData assign_once assign m5 data version)) = Some (Inr g)"
    by (cases "addFinderPattern assign_once m2 0 (?n - 7)") simp_all
  from r3 obtain m4 where m4: "for_each [8..?n - 9] (addTiming assign_once) m3 = Inr m4"
    and r4: "(case (if version > 1 then addAlignment assign_once (getAlignmentPos version) m4
                    else Inr m4) of
                Inl x \<Rightarrow> Some (Inl x)
              | Inr m5 \<Rightarrow> fillData assign_once assign m5 data version) = Some (Inr g)"
    by (cases "for_each [8..?n - 9] (addTiming assign_once) m3") simp_all
  from r4 obtain m5 where
    m5: "(if version > 1 then addAlignment assign_once (getAlignmentPos version) m4 else Inr m4)
         = Inr m5"
    and r5: "fillData assign_once assign m5 data version = Some (Inr g)"
    by (cases "if version > 1 then addAlignment assign_once (getAlignmentPos version) m4
               else Inr m4") simp_all
  from m1 have p1: "addFinderPattern assign m 0 0 = Inr m1" by (rule addFinderPattern_plain)
  from m2 have p2: "addFinderPattern assign m1 (?n - 7) 0 = Inr m2"
    by (rule addFinderPattern_plain)
  from m3 have p3: "addFinderPattern assign m2 0 (?n - 7) = Inr m3"
    by (rule addFinderPattern_plain)
  from m4 have p4: "for_each [8..?n - 9] (addTiming assign) m3 = Inr m4"
    by (rule timing_loop_plain)
  from m5 have p5: "(if version > 1 then addAlignment assign (getAlignmentPos version) m4
                     else Inr m4) = Inr m5"
    by (simp add: addAlignment_plain split: if_splits)
  from r5 have p6: "fillData assign assign m5 data version = Some (Inr g)" by (rule fillData_plain)
  show ?thesis
    unfolding applyMask_def Let_def p1 p2 p3 p4 p5 sum.case by (rule p6)
qed

text \<open>
  What a run leaves: the grid is \<open>n\<close> by \<open>n\<close>, every module is set, and the timing
  modules are as the timing loop stored them.
\<close>

lemma applyMask_run:
  assumes n: "21 \<le> n" and ok: "1 < version \<Longrightarrow> pos_ok n (getAlignmentPos version)"
  shows "\<exists>g. applyMask assign_once assign (createMatrix n) data version e = Some (Inr g)
            \<and> square n g
            \<and> (\<forall>r c. 0 \<le> r \<and> r < n \<and> 0 \<le> c \<and> c < n \<longrightarrow> (r, c) \<in> setcells g)
            \<and> (\<forall>i. 8 \<le> i \<and> i \<le> n - 9 \<longrightarrow>
                  look g 6 i = Some (Some (i mod 2 = 0)) \<and> look g i 6 = Some (Some (i mod 2 = 0)))"
proof -
  from n have len: "int (length (createMatrix n)) = n" by (simp add: createMatrix_def)
  from n obtain m1 m2 m3 m4 where
    p1: "addFinderPattern assign_once (createMatrix n) 0 0 = Inr m1"
    and p2: "addFinderPattern assign_once m1 (n - 7) 0 = Inr m2"
    and p3: "addFinderPattern assign_once m2 0 (n - 7) = Inr m3"
    and p4: "for_each [8..n - 9] (addTiming assign_once) m3 = Inr m4"
    and pg: "pattern_grid n m4"
    using patterns_run by blast
  have "\<exists>m5. (if version > 1 then addAlignment assign_once (getAlignmentPos version) m4 else Inr m4)
             = Inr m5 \<and> keeps n m4 m5"
  proof (cases "1 < version")
    case True
    then have "pos_ok n (getAlignmentPos version)" by (rule ok)
    with pg n have "\<exists>m5. addAlignment assign_once (getAlignmentPos version) m4 = Inr m5
                          \<and> keeps n m4 m5"
      by (rule addAlignment_run)
    with True show ?thesis by simp
  next
    case False
    from pg have "square n m4" by (simp add: pattern_grid_def)
    then have "keeps n m4 m4" by (rule keeps_refl)
    with False show ?thesis by simp
  qed
  then obtain m5 where
    p5: "(if version > 1 then addAlignment assign_once (getAlignmentPos version) m4 else Inr m4)
         = Inr m5"
    and k5: "keeps n m4 m5" by blast
  from k5 have "square n m5" by (rule keeps_square)
  moreover from n have "7 \<le> n" by simp
  ultimately obtain g where p6: "fillData assign_once assign m5 data version = Some (Inr g)"
    and k6: "keeps n m5 g" and full: "filled_from n (- 1) g"
    using fillData_run by blast
  from k5 k6 have k: "keeps n m4 g" by (rule keeps_trans)
  have run: "applyMask assign_once assign (createMatrix n) data version e = Some (Inr g)"
    unfolding applyMask_def Let_def len p1 p2 p3 p4 p5 sum.case by (rule p6)
  have all: "(r, c) \<in> setcells g" if rc: "0 \<le> r \<and> r < n \<and> 0 \<le> c \<and> c < n" for r c
  proof (cases "c = 6")
    case True
    from pg rc have "(r, 6) \<in> setcells m4" by (simp add: pattern_grid_def)
    with k True show ?thesis by (simp add: keeps_setcells)
  next
    case False
    with rc full show ?thesis by (simp add: filled_from_def)
  qed
  have tim: "look g 6 i = Some (Some (i mod 2 = 0)) \<and> look g i 6 = Some (Some (i mod 2 = 0))"
    if i: "8 \<le> i \<and> i \<le> n - 9" for i
  proof -
    from pg i have "look m4 6 i = Some (Some (i mod 2 = 0))"
      and "look m4 i 6 = Some (Some (i mod 2 = 0))" by (simp_all add: pattern_grid_def)
    with k show ?thesis by (simp add: keeps_look)
  qed
  from k have "square n g" by (rule keeps_square)
  with run all tim show ?thesis by blast
qed

lemma generateQR_run:
  fixes data :: "8 word list" and e :: ecl
  defines "n \<equiv> getVersion (int (length data)) e * 4 + 17"
  shows "\<exists>g. generateQR_under assign_once assign data e = Some (Inr g)
            \<and> generateQR data e = Some (Inr g)
            \<and> square n g
            \<and> (\<forall>r c. 0 \<le> r \<and> r < n \<and> 0 \<le> c \<and> c < n \<longrightarrow> (r, c) \<in> setcells g)
            \<and> (\<forall>i. 8 \<le> i \<and> i \<le> n - 9 \<longrightarrow>
                  look g 6 i = Some (Some (i mod 2 = 0)) \<and> look g i 6 = Some (Some (i mod 2 = 0)))"
proof -
  let ?v = "getVersion (int (length data)) e"
  have v: "1 \<le> ?v" "?v \<le> 20" using getVersion_range [of "int (length data)" e] by simp_all
  then have n: "21 \<le> n" by (simp add: n_def)
  have ok: "pos_ok n (getAlignmentPos ?v)" if "1 < ?v"
    unfolding n_def using that v(2) by (rule getAlignmentPos_ok)
  from n ok obtain g where
    run: "applyMask assign_once assign (createMatrix n) data ?v (EC_LEVELS e) = Some (Inr g)"
    and props: "square n g"
      "\<forall>r c. 0 \<le> r \<and> r < n \<and> 0 \<le> c \<and> c < n \<longrightarrow> (r, c) \<in> setcells g"
      "\<forall>i. 8 \<le> i \<and> i \<le> n - 9 \<longrightarrow>
         look g 6 i = Some (Some (i mod 2 = 0)) \<and> look g i 6 = Some (Some (i mod 2 = 0))"
    using applyMask_run [of n ?v data "EC_LEVELS e"] by blast
  from run have "applyMask assign assign (createMatrix n) data ?v (EC_LEVELS e) = Some (Inr g)"
    by (rule applyMask_plain)
  then have "generateQR data e = Some (Inr g)"
    by (simp add: generateQR_def generateQR_under_def Let_def n_def)
  moreover from run have "generateQR_under assign_once assign data e = Some (Inr g)"
    by (simp add: generateQR_under_def Let_def n_def)
  ultimately show ?thesis using props by blast
qed

subsection \<open>Facts about the tables\<close>

lemma caps_last: "caps ! 19 = 858"
  by (simp add: caps_def)

lemma square_rows: "square n g \<Longrightarrow> int (length g) = n \<and> (\<forall>row \<in> set g. int (length row) = n)"
  by (simp add: square_def list_all_iff)

lemma getCapacity_table:
  "list_all (\<lambda>v. caps ! nat (v - 1) + 3 \<le> getCapacity v) [3..20]"
  by code_simp

lemma getCapacity_covers:
  assumes "3 \<le> v" and "v \<le> 20"
  shows "caps ! nat (v - 1) + 3 \<le> getCapacity v"
proof -
  from assms have "v \<in> {3..20}" by simp
  then have "v \<in> set [3..20]" by (simp only: set_upto)
  with getCapacity_table show ?thesis unfolding list_all_iff by blast
qed

lemma getCapacity_2: "getCapacity 2 = 30"
  by (simp add: getCapacity_def)

lemma getVersion_upto_17: "len \<le> 17 \<Longrightarrow> getVersion len e = 1"
  by (simp add: getVersion_def versionScan.simps [of len 1] caps_def)

lemma getVersion_upto_32: "17 < len \<Longrightarrow> len \<le> 32 \<Longrightarrow> getVersion len e = 2"
  by (simp add: getVersion_def versionScan.simps [of len 1] versionScan.simps [of len 2] caps_def)

lemma getVersion_above_32: "32 < len \<Longrightarrow> 3 \<le> getVersion len e"
proof -
  assume a: "32 < len"
  then have "versionScan len 1 = versionScan len 3"
    by (simp add: versionScan.simps [of len 1] versionScan.simps [of len 2] caps_def)
  with versionScan_bounds [of 3 len] show ?thesis by (simp add: getVersion_def)
qed

section \<open>Claims\<close>




text \<open>
  C2. For every payload of L bytes with \<open>0 \<le> L \<le> CapacityTable[20]\<close> the selected version is
  the smallest \<open>v\<close> of 1 to 20 with \<open>CapacityTable[v] \<ge> L\<close> (\<open>CapacityTable[v]\<close> is
  \<open>caps ! (v - 1)\<close>); a payload of one byte selects version 1 and gets a grid of side 21.
\<close>

theorem getVersion_smallest:
  fixes data :: "8 word list"
  assumes "int (length data) \<le> caps ! 19"
  shows "1 \<le> getVersion (int (length data)) e \<and> getVersion (int (length data)) e \<le> 20
         \<and> int (length data) \<le> caps ! nat (getVersion (int (length data)) e - 1)
         \<and> (\<forall>u. 1 \<le> u \<and> u < getVersion (int (length data)) e \<longrightarrow>
                caps ! nat (u - 1) < int (length data))
         \<and> (length data = 1 \<longrightarrow>
                getVersion (int (length data)) e = 1
                \<and> (\<exists>g. generateQR data e = Some (Inr g)
                       \<and> int (length g) = 21 \<and> (\<forall>row \<in> set g. int (length row) = 21)))"
proof -
  let ?len = "int (length data)"
  have a: "1 \<le> getVersion ?len e \<and> getVersion ?len e \<le> 20" by (rule getVersion_range)
  from assms have b: "?len \<le> caps ! nat (getVersion ?len e - 1)"
    unfolding getVersion_def by (intro versionScan_covers) simp_all
  have c: "caps ! nat (u - 1) < ?len" if "1 \<le> u \<and> u < getVersion ?len e" for u
    using that unfolding getVersion_def by (intro versionScan_least [of 1 u ?len]) simp_all
  have d: "getVersion ?len e = 1
           \<and> (\<exists>g. generateQR data e = Some (Inr g)
                  \<and> int (length g) = 21 \<and> (\<forall>row \<in> set g. int (length row) = 21))"
    if one: "length data = 1"
  proof -
    from one have v: "getVersion ?len e = 1" by (simp add: getVersion_1)
    from generateQR_run [of data e] v obtain g where
      "generateQR data e = Some (Inr g)" "square 21 g" by auto
    with v square_rows [of 21 g] show ?thesis by blast
  qed
  from a b c d show ?thesis by blast
qed

theorem getVersion_smallest_witness:
  "int (length [0x41 :: 8 word]) \<le> caps ! 19
   \<and> getVersion (int (length [0x41 :: 8 word])) M = 1
   \<and> int (length [0x41 :: 8 word]) \<le> caps ! nat (getVersion (int (length [0x41 :: 8 word])) M - 1)
   \<and> (\<exists>g. generateQR [0x41] M = Some (Inr g) \<and> int (length g) = 21)"
proof -
  have h: "int (length [0x41 :: 8 word]) \<le> caps ! 19" by (simp add: caps_last)
  have one: "length [0x41 :: 8 word] = 1" by simp
  from getVersion_smallest [OF h, of M] one h show ?thesis by blast
qed

text \<open>
  C3. Claim: a payload of exactly 200 bytes selects version 10 and gets a grid of side
  57. The entry 230 that covers 200 is \<^verbatim>\<open>caps[8]\<close>, which the scan reaches at \<open>v = 9\<close>:
  the version is 9 and the side \<open>4 * 9 + 17 = 53\<close>.
\<close>

theorem payload_200_not_version_10:
  "length (replicate 200 (0x41 :: 8 word)) = 200
   \<and> getVersion (int (length (replicate 200 (0x41 :: 8 word)))) M = 9
   \<and> getVersion (int (length (replicate 200 (0x41 :: 8 word)))) M \<noteq> 10
   \<and> (\<exists>g. generateQR (replicate 200 0x41) M = Some (Inr g)
          \<and> int (length g) = 53 \<and> int (length g) \<noteq> 57)"
proof -
  have v: "getVersion (int (length (replicate 200 (0x41 :: 8 word)))) M = 9"
    by (simp add: getVersion_200)
  from generateQR_run [of "replicate 200 0x41" M] v obtain g where
    "generateQR (replicate 200 0x41) M = Some (Inr g)" "square 53 g" by auto
  with v square_rows [of 53 g] show ?thesis by auto
qed

text \<open>
  C3, as the code has it: for every payload of exactly 200 bytes the encoder selects
  version 9 and produces a grid of side length 53.
\<close>

theorem payload_200_version_9:
  fixes data :: "8 word list"
  assumes "length data = 200"
  shows "getVersion (int (length data)) e = 9
         \<and> (\<exists>g. generateQR data e = Some (Inr g)
                \<and> int (length g) = 53 \<and> (\<forall>row \<in> set g. int (length row) = 53))"
proof -
  from assms have v: "getVersion (int (length data)) e = 9" by (simp add: getVersion_200)
  from generateQR_run [of data e] v obtain g where
    "generateQR data e = Some (Inr g)" "square 53 g" by auto
  with v square_rows [of 53 g] show ?thesis by blast
qed

theorem payload_200_version_9_witness:
  "length (replicate 200 (0x42 :: 8 word)) = 200
   \<and> getVersion (int (length (replicate 200 (0x42 :: 8 word)))) Q = 9
   \<and> (\<exists>g. generateQR (replicate 200 0x42) Q = Some (Inr g) \<and> int (length g) = 53)"
proof -
  have h: "length (replicate 200 (0x42 :: 8 word)) = 200" by simp
  from payload_200_version_9 [OF h, of Q] h show ?thesis by blast
qed

text \<open>
  C4. Claim: for every payload of L bytes with \<open>CapacityTable[v] \<ge> L\<close> at the selected
  version \<open>v\<close>, the bit sequence (mode indicator, count field, data, terminator, padding)
  has length exactly the version's data capacity in bits. At the payload of 17 bytes
  \<open>0x41\<close> version 1 is selected (\<open>caps[0] = 17\<close>), the capacity is
  \<open>getCapacity(1) * 8 = 144\<close> bits, and mode indicator, count field, data and terminator
  already take 152 bits: the padding loop adds nothing and the stream is 152 bits long.
\<close>

theorem buildBits_over_capacity:
  "getVersion (int (length (replicate 17 (0x41 :: 8 word)))) M = 1
   \<and> int (length (replicate 17 (0x41 :: 8 word))) \<le> caps ! 0
   \<and> getCapacity 1 * 8 = 144
   \<and> int (length (buildBits (replicate 17 0x41) 1)) = 152
   \<and> int (length (buildBits (replicate 17 0x41) 1)) \<noteq> getCapacity 1 * 8"
proof -
  have v: "getVersion 17 M = 1"
    by (simp add: getVersion_upto_17)
  have c: "getCapacity 1 * 8 = 144"
    by (simp add: getCapacity_def)
  have "int (length (buildBits (replicate 17 (0x41 :: 8 word)) 1)) =
        max (unpadded (int (length (replicate 17 (0x41 :: 8 word)))) 1) (getCapacity 1 * 8)"
    by (rule length_buildBits)
  with c have b: "int (length (buildBits (replicate 17 (0x41 :: 8 word)) 1)) = 152"
    by (simp add: unpadded_def)
  from v c b show ?thesis by (simp add: caps_def)
qed

text \<open>
  C4, as the code has it: for every payload of L bytes within capacity and its selected
  version \<open>v\<close>, the bit sequence has length exactly the version's data capacity
  \<open>getCapacity(v) * 8\<close>, unless \<open>L = 17\<close> (version 1) or \<open>29 \<le> L \<le> 32\<close> (version 2): there
  mode indicator, count field, data and terminator are already longer than the capacity,
  no padding is added, and the length is \<open>8 * L + 16\<close>.
\<close>

theorem buildBits_length:
  fixes data :: "8 word list"
  assumes "int (length data) \<le> caps ! 19"
  shows "(int (length data) \<noteq> 17 \<and> \<not> (29 \<le> int (length data) \<and> int (length data) \<le> 32) \<longrightarrow>
            int (length (buildBits data (getVersion (int (length data)) e)))
              = getCapacity (getVersion (int (length data)) e) * 8)
         \<and> (int (length data) = 17 \<or> (29 \<le> int (length data) \<and> int (length data) \<le> 32) \<longrightarrow>
            int (length (buildBits data (getVersion (int (length data)) e)))
              = 8 * int (length data) + 16
            \<and> getCapacity (getVersion (int (length data)) e) * 8 < 8 * int (length data) + 16)"
proof -
  let ?len = "int (length data)"
  let ?v = "getVersion ?len e"
  have len: "int (length (buildBits data ?v)) = max (unpadded ?len ?v) (getCapacity ?v * 8)"
    by (rule length_buildBits)
  consider (one) "?len \<le> 17" | (two) "17 < ?len" "?len \<le> 32" | (more) "32 < ?len"
    by linarith
  then show ?thesis
  proof cases
    case one
    then have v: "?v = 1" by (rule getVersion_upto_17)
    have "getCapacity 1 * 8 = 144" by (simp add: getCapacity_1)
    with one len show ?thesis unfolding v by (simp add: unpadded_def)
  next
    case two
    then have v: "?v = 2" by (rule getVersion_upto_32)
    have "getCapacity 2 * 8 = 240" by (simp add: getCapacity_2)
    with two len show ?thesis unfolding v by (simp add: unpadded_def)
  next
    case more
    then have v3: "3 \<le> ?v" by (rule getVersion_above_32)
    have v20: "?v \<le> 20" using getVersion_range [of ?len e] by simp
    from assms have "?len \<le> caps ! nat (?v - 1)"
      unfolding getVersion_def by (intro versionScan_covers) simp_all
    moreover from v3 v20 have "caps ! nat (?v - 1) + 3 \<le> getCapacity ?v"
      by (rule getCapacity_covers)
    ultimately have "8 * ?len + 24 \<le> getCapacity ?v * 8" by simp
    then have "unpadded ?len ?v \<le> getCapacity ?v * 8" by (simp add: unpadded_def)
    with len more show ?thesis by simp
  qed
qed

theorem buildBits_length_witness:
  "int (length (replicate 16 (0x41 :: 8 word))) \<le> caps ! 19
   \<and> int (length (buildBits (replicate 16 (0x41 :: 8 word))
                     (getVersion (int (length (replicate 16 (0x41 :: 8 word)))) M)))
       = getCapacity (getVersion (int (length (replicate 16 (0x41 :: 8 word)))) M) * 8
   \<and> int (length (replicate 30 (0x41 :: 8 word))) \<le> caps ! 19
   \<and> int (length (buildBits (replicate 30 (0x41 :: 8 word))
                     (getVersion (int (length (replicate 30 (0x41 :: 8 word)))) M)))
       = 8 * int (length (replicate 30 (0x41 :: 8 word))) + 16"
proof -
  have h16: "int (length (replicate 16 (0x41 :: 8 word))) \<le> caps ! 19" by (simp add: caps_last)
  have h30: "int (length (replicate 30 (0x41 :: 8 word))) \<le> caps ! 19" by (simp add: caps_last)
  from buildBits_length [OF h16, of M]
  have a: "int (length (buildBits (replicate 16 (0x41 :: 8 word))
                     (getVersion (int (length (replicate 16 (0x41 :: 8 word)))) M)))
       = getCapacity (getVersion (int (length (replicate 16 (0x41 :: 8 word)))) M) * 8"
    by simp
  from buildBits_length [OF h30, of M]
  have b: "int (length (buildBits (replicate 30 (0x41 :: 8 word))
                     (getVersion (int (length (replicate 30 (0x41 :: 8 word)))) M)))
       = 8 * int (length (replicate 30 (0x41 :: 8 word))) + 16"
    by simp
  from h16 a h30 b show ?thesis by blast
qed

text \<open>
  C5. For every payload within capacity the grid returned by the encode operation is
  square with side length \<open>4 * Version + 17\<close>, and every module of it is dark
  (\<open>Some True\<close>) or light (\<open>Some False\<close>): none is left unset.
\<close>

theorem finished_grid_square_and_set:
  fixes data :: "8 word list"
  assumes "int (length data) \<le> caps ! 19"
  shows "\<exists>g. generateQR data e = Some (Inr g)
           \<and> int (length g) = getVersion (int (length data)) e * 4 + 17
           \<and> (\<forall>row \<in> set g. int (length row) = getVersion (int (length data)) e * 4 + 17)
           \<and> (\<forall>r c. 0 \<le> r \<and> r < getVersion (int (length data)) e * 4 + 17
                    \<and> 0 \<le> c \<and> c < getVersion (int (length data)) e * 4 + 17 \<longrightarrow>
                  look g r c = Some (Some True) \<or> look g r c = Some (Some False))"
proof -
  let ?n = "getVersion (int (length data)) e * 4 + 17"
  from generateQR_run [of data e] obtain g where
    g: "generateQR data e = Some (Inr g)" "square ?n g"
       "\<forall>r c. 0 \<le> r \<and> r < ?n \<and> 0 \<le> c \<and> c < ?n \<longrightarrow> (r, c) \<in> setcells g"
    by blast
  have "look g r c = Some (Some True) \<or> look g r c = Some (Some False)"
    if "0 \<le> r \<and> r < ?n \<and> 0 \<le> c \<and> c < ?n" for r c
  proof -
    from that g(3) obtain b where "look g r c = Some (Some b)" by (auto simp add: setcells_def)
    then show ?thesis by (cases b) simp_all
  qed
  with g(1) square_rows [OF g(2)] show ?thesis by blast
qed

theorem finished_grid_square_and_set_witness:
  "int (length [0x41 :: 8 word]) \<le> caps ! 19
   \<and> (\<exists>g. generateQR [0x41] M = Some (Inr g)
          \<and> int (length g) = 21
          \<and> (look g 0 0 = Some (Some True) \<or> look g 0 0 = Some (Some False))
          \<and> (look g 20 20 = Some (Some True) \<or> look g 20 20 = Some (Some False)))"
proof -
  have h: "int (length [0x41 :: 8 word]) \<le> caps ! 19" by (simp add: caps_last)
  have v: "getVersion (int (length [0x41 :: 8 word])) M * 4 + 17 = 21"
    by (simp add: getVersion_1)
  from finished_grid_square_and_set [OF h, of M] obtain g where
    g: "generateQR [0x41] M = Some (Inr g)"
       "int (length g) = getVersion (int (length [0x41 :: 8 word])) M * 4 + 17"
       "\<forall>r c. 0 \<le> r \<and> r < getVersion (int (length [0x41 :: 8 word])) M * 4 + 17
              \<and> 0 \<le> c \<and> c < getVersion (int (length [0x41 :: 8 word])) M * 4 + 17 \<longrightarrow>
            look g r c = Some (Some True) \<or> look g r c = Some (Some False)"
    by blast
  from g(3) v have "look g 0 0 = Some (Some True) \<or> look g 0 0 = Some (Some False)"
    and "look g 20 20 = Some (Some True) \<or> look g 20 20 = Some (Some False)"
    by simp_all
  with g(1,2) v h show ?thesis by auto
qed

text \<open>
  C6. Claim: throughout one encode call a module that has been set, by the finder, timing
  or alignment stamping or by the data placement, is never overwritten by any later write.
  The store \<open>assign_once\<close> refuses to write a module that is set. Run with it for every
  assignment of the encoder, the payload of the one byte \<open>0x41\<close> ends in the refusal: the
  data placement stores the bit of a module (line 120) and, when row + column is even,
  stores the negation onto the module it has just set (line 122); the first module it
  visits, (20, 20), is such a module.
\<close>

theorem mask_flip_overwrites:
  "generateQR_under assign_once assign_once [0x41] M = Some (Inl Overwrite)
   \<and> visit assign_once assign_once [0, 1, 0, 0] 20 20 (createMatrix 21, 0) = Inl Overwrite"
proof -
  have a: "generateQR_under assign_once assign_once [0x41] M = Some (Inl Overwrite)"
    by code_simp
  have b: "visit assign_once assign_once [0, 1, 0, 0] 20 20 (createMatrix 21, 0) = Inl Overwrite"
    by code_simp
  from a b show ?thesis by (rule conjI)
qed

text \<open>
  C6, as the code has it: throughout one encode call, once a module has been set by the
  finder, timing or alignment stamping or by the data placement, no later stamp and no
  later visit of the data placement writes it. The one store onto a set module is the
  mask flip, which the data placement applies, when row + column is even, to the module the
  same visit has just set. In the model: \<open>assign_once\<close> writes only modules that are unset;
  with it for every assignment but the mask flip, the encoder meets no refusal and returns
  the very grid the code returns; a visit of the data placement changes no module but the
  one it visits, and not that one if it is already set; and the data placement leaves every
  set module of any square grid it is given as it was, so functional modules are never
  touched by it.
\<close>

theorem first_writer_wins:
  fixes data :: "8 word list"
  shows "(\<forall>m r c v t. assign_once m r c v = Inr t \<longrightarrow> is_null m r c \<and> assign m r c v = Inr t)
         \<and> (\<exists>g. generateQR_under assign_once assign data e = Some (Inr g)
                \<and> generateQR data e = Some (Inr g))
         \<and> (\<forall>n m bits row cc i. square n m \<and> 0 \<le> row \<and> row < n \<and> 0 \<le> cc \<and> cc < n \<longrightarrow>
               (\<exists>m' i'. visit assign assign bits row cc (m, i) = Inr (m', i')
                    \<and> (\<forall>r c. (r, c) \<noteq> (row, cc) \<longrightarrow> look m' r c = look m r c)
                    \<and> (\<not> is_null m row cc \<longrightarrow> m' = m)))
         \<and> (\<forall>n m version. square n m \<and> 7 \<le> n \<longrightarrow>
               (\<exists>g. fillData assign assign m data version = Some (Inr g)
                    \<and> (\<forall>r c b. look m r c = Some (Some b) \<longrightarrow> look g r c = Some (Some b))))"
proof -
  from generateQR_run [of data e]
  have a: "\<exists>g. generateQR_under assign_once assign data e = Some (Inr g)
               \<and> generateQR data e = Some (Inr g)"
    by blast
  have b: "\<exists>g. fillData assign assign m data version = Some (Inr g)
               \<and> (\<forall>r c b. look m r c = Some (Some b) \<longrightarrow> look g r c = Some (Some b))"
    if "square n m \<and> 7 \<le> n" for n m version
  proof -
    from that obtain g where g: "fillData assign_once assign m data version = Some (Inr g)"
      and k: "keeps n m g"
      using fillData_run by blast
    from g have "fillData assign assign m data version = Some (Inr g)" by (rule fillData_plain)
    with k show ?thesis unfolding keeps_def by blast
  qed
  have c: "\<exists>m' i'. visit assign assign bits row cc (m, i) = Inr (m', i')
               \<and> (\<forall>r c. (r, c) \<noteq> (row, cc) \<longrightarrow> look m' r c = look m r c)
               \<and> (\<not> is_null m row cc \<longrightarrow> m' = m)"
    if "square n m \<and> 0 \<le> row \<and> row < n \<and> 0 \<le> cc \<and> cc < n" for n m bits row cc i
  proof -
    from that obtain m' i' where
      v: "visit assign_once assign bits row cc (m, i) = Inr (m', i')"
      and o: "\<forall>r c. (r, c) \<noteq> (row, cc) \<longrightarrow> look m' r c = look m r c"
      and s: "\<not> is_null m row cc \<longrightarrow> m' = m"
      using visit_run [of n m row cc bits i] by blast
    from v have "visit assign assign bits row cc (m, i) = Inr (m', i')" by (rule visit_plain)
    with o s show ?thesis by blast
  qed
  from a b c assign_once_only_null show ?thesis by blast
qed

theorem first_writer_wins_witness:
  "(\<exists>g. generateQR_under assign_once assign [0x41] M = Some (Inr g)
        \<and> generateQR [0x41] M = Some (Inr g))
   \<and> square 21 (createMatrix 21)
   \<and> (\<exists>g. fillData assign assign (createMatrix 21) [0x41] 1 = Some (Inr g))
   \<and> (\<exists>m' i'. visit assign assign [0, 1, 0, 0] 20 20 (createMatrix 21, 0) = Inr (m', i')
          \<and> look m' 0 0 = look (createMatrix 21) 0 0)
   \<and> assign_once [[None]] 0 0 True = Inr [[Some True]]
   \<and> is_null [[None]] 0 0"
proof -
  have sq: "square 21 (createMatrix 21) \<and> (7::int) \<le> 21" by (simp add: square_createMatrix)
  have w: "assign_once [[None]] 0 0 True = Inr [[Some True]]"
    by (simp add: assign_once_def assign_def look_def)
  have v: "square 21 (createMatrix 21) \<and> (0::int) \<le> 20 \<and> (20::int) < 21
           \<and> (0::int) \<le> 20 \<and> (20::int) < 21"
    by (simp add: square_createMatrix)
  from first_writer_wins [of "[0x41]" M]
  have vis: "\<forall>n m bits row cc i. square n m \<and> 0 \<le> row \<and> row < n \<and> 0 \<le> cc \<and> cc < n \<longrightarrow>
               (\<exists>m' i'. visit assign assign bits row cc (m, i) = Inr (m', i')
                    \<and> (\<forall>r c. (r, c) \<noteq> (row, cc) \<longrightarrow> look m' r c = look m r c)
                    \<and> (\<not> is_null m row cc \<longrightarrow> m' = m))"
    by blast
  note inst = vis [THEN spec [where x = "21 :: int"], THEN spec [where x = "createMatrix 21"],
      THEN spec [where x = "[0, 1, 0, 0] :: nat list"], THEN spec [where x = "20 :: int"],
      THEN spec [where x = "20 :: int"], THEN spec [where x = "0 :: nat"], THEN mp, OF v]
  then obtain m' i' where
    r: "visit assign assign [0, 1, 0, 0] 20 20 (createMatrix 21, 0) = Inr (m', i')"
    and o: "\<forall>r c. (r, c) \<noteq> (20, 20) \<longrightarrow> look m' r c = look (createMatrix 21) r c"
    by blast
  from o have "look m' 0 0 = look (createMatrix 21) 0 0" by simp
  with r have "\<exists>m' i'. visit assign assign [0, 1, 0, 0] 20 20 (createMatrix 21, 0) = Inr (m', i')
          \<and> look m' 0 0 = look (createMatrix 21) 0 0"
    by blast
  with first_writer_wins [of "[0x41]" M] sq w show ?thesis by blast
qed

text \<open>
  C7. In the finished grid, for every version of 1 to 20 and every payload within capacity,
  the modules of row 6 and of column 6 at every index \<open>i\<close> of 8 to \<open>N - 9\<close> are dark exactly
  when \<open>i\<close> is even and light otherwise: so for the grid \<^verbatim>\<open>generateQR\<close> returns at the
  version it selects, and for the grid \<^verbatim>\<open>applyMask\<close> returns at any version \<open>v\<close> of 1 to 20
  on the fresh matrix of side \<open>N = 4 * v + 17\<close>.
\<close>

theorem timing_pattern_alternates:
  fixes data :: "8 word list"
  shows "(int (length data) \<le> caps ! 19 \<longrightarrow>
            (\<exists>g. generateQR data e = Some (Inr g)
                \<and> (\<forall>i. 8 \<le> i \<and> i \<le> getVersion (int (length data)) e * 4 + 17 - 9 \<longrightarrow>
                       look g 6 i = Some (Some (even i)) \<and> look g i 6 = Some (Some (even i)))))
         \<and> (1 \<le> v \<and> v \<le> 20 \<longrightarrow>
            (\<exists>g. applyMask assign assign (createMatrix (v * 4 + 17)) data v x = Some (Inr g)
                \<and> (\<forall>i. 8 \<le> i \<and> i \<le> v * 4 + 17 - 9 \<longrightarrow>
                       look g 6 i = Some (Some (even i)) \<and> look g i 6 = Some (Some (even i)))))"
proof -
  have ev: "even i = (i mod 2 = 0)" for i :: int by (rule even_iff_mod_2_eq_zero)
  let ?n = "getVersion (int (length data)) e * 4 + 17"
  from generateQR_run [of data e] obtain g where
    g: "generateQR data e = Some (Inr g)"
       "\<forall>i. 8 \<le> i \<and> i \<le> ?n - 9 \<longrightarrow>
          look g 6 i = Some (Some (i mod 2 = 0)) \<and> look g i 6 = Some (Some (i mod 2 = 0))"
    by blast
  with ev have a: "\<exists>g. generateQR data e = Some (Inr g)
      \<and> (\<forall>i. 8 \<le> i \<and> i \<le> ?n - 9 \<longrightarrow>
             look g 6 i = Some (Some (even i)) \<and> look g i 6 = Some (Some (even i)))"
    by auto
  have b: "\<exists>g. applyMask assign assign (createMatrix (v * 4 + 17)) data v x = Some (Inr g)
      \<and> (\<forall>i. 8 \<le> i \<and> i \<le> v * 4 + 17 - 9 \<longrightarrow>
             look g 6 i = Some (Some (even i)) \<and> look g i 6 = Some (Some (even i)))"
    if v: "1 \<le> v \<and> v \<le> 20"
  proof -
    from v have n: "21 \<le> v * 4 + 17" by simp
    have ok: "pos_ok (v * 4 + 17) (getAlignmentPos v)" if "1 < v"
      using that v by (simp add: getAlignmentPos_ok)
    from n ok obtain h where
      run: "applyMask assign_once assign (createMatrix (v * 4 + 17)) data v x = Some (Inr h)"
      and tim: "\<forall>i. 8 \<le> i \<and> i \<le> v * 4 + 17 - 9 \<longrightarrow>
          look h 6 i = Some (Some (i mod 2 = 0)) \<and> look h i 6 = Some (Some (i mod 2 = 0))"
      using applyMask_run [of "v * 4 + 17" v data x] by blast
    from run have "applyMask assign assign (createMatrix (v * 4 + 17)) data v x = Some (Inr h)"
      by (rule applyMask_plain)
    with tim ev show ?thesis by auto
  qed
  from a b show ?thesis by blast
qed

theorem timing_pattern_alternates_witness:
  "int (length [0x41 :: 8 word]) \<le> caps ! 19
   \<and> (\<exists>g. generateQR [0x41] M = Some (Inr g)
          \<and> look g 6 8 = Some (Some True) \<and> look g 6 9 = Some (Some False)
          \<and> look g 8 6 = Some (Some True) \<and> look g 12 6 = Some (Some True))
   \<and> (\<exists>g. applyMask assign assign (createMatrix (7 * 4 + 17)) [0x41] 7 0 = Some (Inr g)
          \<and> look g 6 22 = Some (Some True) \<and> look g 23 6 = Some (Some False))"
proof -
  have h: "int (length [0x41 :: 8 word]) \<le> caps ! 19" by (simp add: caps_last)
  have v: "getVersion (int (length [0x41 :: 8 word])) M * 4 + 17 - 9 = 12"
    by (simp add: getVersion_1)
  from timing_pattern_alternates [of "[0x41]" M 7 0] h obtain g where
    g: "generateQR [0x41] M = Some (Inr g)"
       "\<forall>i. 8 \<le> i \<and> i \<le> getVersion (int (length [0x41 :: 8 word])) M * 4 + 17 - 9 \<longrightarrow>
          look g 6 i = Some (Some (even i)) \<and> look g i 6 = Some (Some (even i))"
    by blast
  from g(2) v have a: "look g 6 8 = Some (Some True)" "look g 6 9 = Some (Some False)"
    "look g 8 6 = Some (Some True)" "look g 12 6 = Some (Some True)"
    by simp_all
  have "(1::int) \<le> 7 \<and> (7::int) \<le> 20" by simp
  with timing_pattern_alternates [of "[0x41]" M 7 0] obtain k where
    k: "applyMask assign assign (createMatrix (7 * 4 + 17)) [0x41] 7 0 = Some (Inr k)"
       "\<forall>i. 8 \<le> i \<and> i \<le> 7 * 4 + 17 - 9 \<longrightarrow>
          look k 6 i = Some (Some (even i)) \<and> look k i 6 = Some (Some (even i))"
    by blast
  from k(2) have b: "look k 6 22 = Some (Some True)" "look k 23 6 = Some (Some False)"
    by simp_all
  from h g(1) a k(1) b show ?thesis by blast
qed

text \<open>
  C8. For payloads A and B with byte-length(A) \<open>\<le>\<close> byte-length(B), the version selected
  for A is at most the version selected for B (whatever the error-correction levels).
\<close>

theorem getVersion_monotone:
  assumes "length A \<le> length B"
  shows "getVersion (int (length A)) ea \<le> getVersion (int (length B)) eb"
proof -
  from assms have "int (length A) \<le> int (length B)" by simp
  then have "versionScan (int (length A)) 1 \<le> versionScan (int (length B)) 1"
    by (rule versionScan_mono)
  then show ?thesis by (simp add: getVersion_def)
qed

theorem getVersion_monotone_witness:
  "length [0x41 :: 8 word] \<le> length (replicate 200 (0x41 :: 8 word))
   \<and> getVersion (int (length [0x41 :: 8 word])) M
       \<le> getVersion (int (length (replicate 200 (0x41 :: 8 word)))) Q"
proof -
  have h: "length [0x41 :: 8 word] \<le> length (replicate 200 (0x41 :: 8 word))" by simp
  from h getVersion_monotone [OF h, of M Q] show ?thesis by (rule conjI)
qed

text \<open>
  C9. For every payload and any two error-correction levels of L, M, Q and H, the encode
  operation gives the same result: the grid does not depend on the level.
\<close>

theorem generateQR_ignores_ecl: "generateQR data e1 = generateQR data e2"
  by (simp add: generateQR_def generateQR_under_def getVersion_def applyMask_def)

theorem generateQR_ignores_ecl_witness:
  "generateQR [0x41] L = generateQR [0x41] H \<and> generateQR [0x41] M = generateQR [0x41] Q"
  using generateQR_ignores_ecl [of "[0x41]" L H] generateQR_ignores_ecl [of "[0x41]" M Q]
  by (rule conjI)

text \<open>
  C10. For every payload within capacity the encode computation returns, and what it
  returns is a grid: the version scan, the generation of the alignment positions, the
  terminator and padding loops (total functions, with their termination proofs above) and
  the zigzag traversal (\<open>fillRows\<close> and \<open>fillCols\<close>, where \<open>None\<close> would be a run that
  does not return) all finish.
\<close>

theorem generateQR_returns_grid:
  fixes data :: "8 word list"
  assumes "int (length data) \<le> caps ! 19"
  shows "\<exists>g. generateQR data e = Some (Inr g)
           \<and> int (length g) = getVersion (int (length data)) e * 4 + 17"
proof -
  from generateQR_run [of data e] obtain g where
    "generateQR data e = Some (Inr g)"
    "square (getVersion (int (length data)) e * 4 + 17) g" by blast
  then show ?thesis by (auto simp add: square_def)
qed

theorem generateQR_returns_grid_witness:
  "int (length (replicate 858 (0x41 :: 8 word))) \<le> caps ! 19
   \<and> (\<exists>g. generateQR (replicate 858 0x41) L = Some (Inr g))"
proof -
  have h: "int (length (replicate 858 (0x41 :: 8 word))) \<le> caps ! 19" by (simp add: caps_last)
  from generateQR_returns_grid [OF h, of L] h show ?thesis by blast
qed

end
